theory Spec2Isabelle
  imports Main "HOL-Library.Char_ord" "HOL-Library.List_Lexorder" "HOL-Library.Product_Lexorder"
begin

unbundle bit_operations_syntax

section \<open>Data model\<close>

text \<open>
  The repository holds two copies of the same CSV-to-SQL materializer, \<^verbatim>\<open>ETL.py\<close> and
  \<^verbatim>\<open>Debugged.py\<close>. The classes and \<^verbatim>\<open>_toposort\<close> are the same in both files up to
  two places, and the model takes the file as a parameter there. Both files need
  Python 2 (\<^verbatim>\<open>iteritems\<close>, the builtin \<^verbatim>\<open>reduce\<close>, \<^verbatim>\<open>print\<close> as a statement).
\<close>

datatype source_file = ETL | Debugged

text \<open>Python values that the materializer handles.\<close>

datatype pyval = PyNone | PyBool bool | PyInt int | PyStr string

text \<open>A row of \<^verbatim>\<open>csv.DictReader\<close>: column name to text.\<close>

type_synonym row = "(string \<times> string) list"

text \<open>The pair (table, instance), the key of \<^verbatim>\<open>flat_specs\<close> and of \<^verbatim>\<open>xref_map\<close>.\<close>

type_synonym path = "string \<times> string"

text \<open>What the program prints.\<close>

datatype message =
    SpecNotFound string string
      \<comment> \<open>\<^verbatim>\<open>'ERROR: Could not find specification for "{}" in table "{}". ...'.format(i, t)\<close>\<close>
  | InvalidRecordSpec string string
      \<comment> \<open>\<^verbatim>\<open>'ERROR: The RecordSpec for {} in {} does not seem to be valid'.format(k, table_name)\<close>\<close>
  | NotAString pyval string string
      \<comment> \<open>\<^verbatim>\<open>'ERROR: The value ({}) for "{}" in table "{}" is not a string. ...'.format(v, k, table_name)\<close>\<close>
  | UnquotedWarning string string string
      \<comment> \<open>\<^verbatim>\<open>'WARNING: {} looks like a string value but is not in quotes. ...'.format(v, k, table_name)\<close>\<close>
  | Aborting
      \<comment> \<open>\<^verbatim>\<open>'Aborting due to errors.'\<close>\<close>

text \<open>
  Exceptions. \<open>SystemExit ms\<close> is \<^verbatim>\<open>exit(-1)\<close> after the messages \<open>ms\<close> were printed by
  the function that exits. \<open>DoesNotReturn\<close> is no exception: it stands for a call that
  never returns.
\<close>

datatype error =
    KeyError string
  | KeyErrorPath path
  | AttributeError
  | StopIteration
  | TypeError
  | AssertionError "(path \<times> path set) list"
  | SystemExit "message list"
  | Raised string
  | DoesNotReturn

subsection \<open>Dicts with (table, instance) keys\<close>

text \<open>
  The dicts \<^verbatim>\<open>flat_specs\<close>, \<^verbatim>\<open>dependency_map\<close> and \<^verbatim>\<open>data\<close> are looked up, and iterated
  only to build sets and other dicts: the order of their iteration shows in no result.
  Such a dict is an association list with unique keys. \<open>dict_set\<close> is \<^verbatim>\<open>d[k] = v\<close>,
  \<open>dict_update\<close> is \<^verbatim>\<open>d.update(e)\<close>, \<open>dict_get\<close> is \<^verbatim>\<open>d[k]\<close> without its KeyError.
\<close>

fun dict_set :: "'k \<Rightarrow> 'v \<Rightarrow> ('k \<times> 'v) list \<Rightarrow> ('k \<times> 'v) list" where
  "dict_set k v [] = [(k, v)]"
| "dict_set k v ((k', v') # d) = (if k' = k then (k, v) # d else (k', v') # dict_set k v d)"

definition dict_update :: "('k \<times> 'v) list \<Rightarrow> ('k \<times> 'v) list \<Rightarrow> ('k \<times> 'v) list" where
  "dict_update d e = fold (\<lambda>(k, v) acc. dict_set k v acc) e d"

definition dict_get :: "('k \<times> 'v) list \<Rightarrow> 'k \<Rightarrow> 'v option" where
  "dict_get d k = map_of d k"

subsection \<open>Dicts with string keys\<close>

text \<open>
  The statement that \<^verbatim>\<open>insert_statement\<close> returns lists a dict in the order of its
  iteration, which in Python 2 is the order of the slots of its hash table. This is
  the dict of CPython 2.7 (\<^verbatim>\<open>Objects/dictobject.c\<close>, \<^verbatim>\<open>Objects/stringobject.c\<close>) for
  string keys, with hash randomization off as it is by default, and without deletion:
  the program never deletes from a dict.

  \<open>long_bits\<close> is the width of a C \<^verbatim>\<open>long\<close>. \<open>string_hash w s\<close> is \<^verbatim>\<open>string_hash\<close>: the
  hash of a string as an unsigned number of \<open>w\<close> bits.
\<close>

definition long_bits :: nat where
  "long_bits = 64"

fun hash_bytes :: "nat \<Rightarrow> string \<Rightarrow> int \<Rightarrow> int" where
  "hash_bytes w [] x = x"
| "hash_bytes w (p # ps) x = hash_bytes w ps (((1000003 * x) mod 2 ^ w) XOR of_char p)"

definition string_hash :: "nat \<Rightarrow> string \<Rightarrow> int" where
  "string_hash w s =
     (case s of
        [] \<Rightarrow> 0
      | p # ps \<Rightarrow>
          (let x = hash_bytes w s ((of_char p * 128) mod 2 ^ w) XOR int (length s)
           in if x = 2 ^ w - 1 then 2 ^ w - 2 else x))"

text \<open>
  The table \<^verbatim>\<open>ma_table\<close>: a slot is unused or holds a key and its value. A new dict
  has \<^verbatim>\<open>PyDict_MINSIZE\<close> slots. Iteration (\<^verbatim>\<open>keys\<close>, \<^verbatim>\<open>values\<close>, \<^verbatim>\<open>items\<close>, \<^verbatim>\<open>iteritems\<close>)
  goes through the slots in their order; \<^verbatim>\<open>d[k]\<close> is the value stored under the key.
\<close>

type_synonym 'v pydict = "(string \<times> 'v) option list"

definition py_new :: "'v pydict" where
  "py_new = replicate 8 None"

definition py_items :: "'v pydict \<Rightarrow> (string \<times> 'v) list" where
  "py_items table = List.map_filter (\<lambda>entry. entry) table"

definition py_used :: "'v pydict \<Rightarrow> nat" where
  "py_used table = length (py_items table)"

definition py_getitem :: "'v pydict \<Rightarrow> string \<Rightarrow> 'v option" where
  "py_getitem table key = map_of (py_items table) key"

text \<open>
  The probing of \<^verbatim>\<open>lookdict_string\<close> after the first slot: the loop
  \<^verbatim>\<open>for (perturb = hash; ; perturb >>= 5) { i = (i << 2) + i + perturb + 1; ... }\<close>, which
  ends at an unused slot or at the slot of the key. Only \<^verbatim>\<open>i & mask\<close> is used, so \<open>i\<close>
  is kept below the size of the table.
\<close>

partial_function (option) lookdict :: "'v pydict \<Rightarrow> string \<Rightarrow> nat \<Rightarrow> int \<Rightarrow> nat option" where
  "lookdict table key i perturb =
     (let i' = nat ((5 * int i + perturb + 1) mod int (length table))
      in case table ! i' of
           None \<Rightarrow> Some i'
         | Some (k, v) \<Rightarrow> if k = key then Some i' else lookdict table key i' (perturb div 32))"

declare lookdict.simps [code]

text \<open>The slot for a key: the slot \<^verbatim>\<open>hash & mask\<close>, or the one that the probing finds.\<close>

definition find_slot :: "nat \<Rightarrow> 'v pydict \<Rightarrow> string \<Rightarrow> nat option" where
  "find_slot w table key =
     (let hash = string_hash w key; i = nat (hash mod int (length table))
      in case table ! i of
           None \<Rightarrow> Some i
         | Some (k, v) \<Rightarrow> if k = key then Some i else lookdict table key i hash)"

text \<open>\<^verbatim>\<open>insertdict\<close>: the entry goes into the slot for its key.\<close>

definition insertdict :: "nat \<Rightarrow> 'v pydict \<Rightarrow> string \<Rightarrow> 'v \<Rightarrow> 'v pydict option" where
  "insertdict w table key value =
     (case find_slot w table key of
        None \<Rightarrow> None
      | Some i \<Rightarrow> Some (table[i := Some (key, value)]))"

fun insert_all :: "nat \<Rightarrow> (string \<times> 'v) list \<Rightarrow> 'v pydict \<Rightarrow> 'v pydict option" where
  "insert_all w [] table = Some table"
| "insert_all w ((k, v) # kvs) table =
     (case insertdict w table k v of None \<Rightarrow> None | Some table' \<Rightarrow> insert_all w kvs table')"

text \<open>
  \<^verbatim>\<open>dictresize\<close>: the new size is the first of 8, 16, 32, ... above \<^verbatim>\<open>minused\<close>, and the
  entries are inserted again in the order of the old slots.
\<close>

function new_size :: "nat \<Rightarrow> nat \<Rightarrow> nat" where
  "new_size newsize minused =
     (if newsize \<le> minused \<and> 0 < newsize then new_size (2 * newsize) minused else newsize)"
  by pat_completeness auto
termination
  by (relation "measure (\<lambda>(newsize, minused). Suc minused - newsize)") auto

declare new_size.simps [simp del]

definition dictresize :: "nat \<Rightarrow> 'v pydict \<Rightarrow> nat \<Rightarrow> 'v pydict option" where
  "dictresize w table minused = insert_all w (py_items table) (replicate (new_size 8 minused) None)"

text \<open>
  \<^verbatim>\<open>PyDict_SetItem\<close>, which is \<^verbatim>\<open>d[k] = v\<close> and each step of a dict comprehension: after
  the insertion of a new key into a table that is two thirds full, the table is resized.
\<close>

definition py_setitem :: "nat \<Rightarrow> 'v pydict \<Rightarrow> string \<Rightarrow> 'v \<Rightarrow> 'v pydict option" where
  "py_setitem w table key value =
     (let n_used = py_used table
      in case insertdict w table key value of
           None \<Rightarrow> None
         | Some table' \<Rightarrow>
             if py_used table' > n_used \<and> py_used table' * 3 \<ge> length table' * 2
             then dictresize w table' ((if py_used table' > 50000 then 2 else 4) * py_used table')
             else Some table')"

text \<open>
  \<^verbatim>\<open>a.update(b)\<close> for a dict \<open>b\<close> (\<^verbatim>\<open>PyDict_Merge\<close>): one resize at the start when needed,
  then the entries of \<open>b\<close> are inserted in the order of its slots.
\<close>

definition py_update :: "nat \<Rightarrow> 'v pydict \<Rightarrow> 'v pydict \<Rightarrow> 'v pydict option" where
  "py_update w a b =
     (if py_used b = 0 then Some a
      else
        (case (if (py_used a + py_used b) * 3 \<ge> length a * 2
               then dictresize w a ((py_used a + py_used b) * 2) else Some a) of
           None \<Rightarrow> None
         | Some a' \<Rightarrow> insert_all w (py_items b) a'))"

text \<open>
  A dict display \<^verbatim>\<open>{k1: v1, k2: v2, ...}\<close>: \<^verbatim>\<open>BUILD_MAP\<close> makes the dict, presized for more
  than five entries, and each \<^verbatim>\<open>STORE_MAP\<close> is a \<^verbatim>\<open>PyDict_SetItem\<close>.
\<close>

fun set_all :: "nat \<Rightarrow> (string \<times> 'v) list \<Rightarrow> 'v pydict \<Rightarrow> 'v pydict option" where
  "set_all w [] table = Some table"
| "set_all w ((k, v) # kvs) table =
     (case py_setitem w table k v of None \<Rightarrow> None | Some table' \<Rightarrow> set_all w kvs table')"

definition py_display :: "nat \<Rightarrow> (string \<times> 'v) list \<Rightarrow> 'v pydict option" where
  "py_display w kvs =
     (case (if length kvs > 5 then dictresize w py_new (length kvs) else Some py_new) of
        None \<Rightarrow> None
      | Some table \<Rightarrow> set_all w kvs table)"

subsection \<open>Records\<close>

record DbRecord =
  row_id :: pyval
  table_name :: string
  attributes :: "pyval pydict"

text \<open>\<^verbatim>\<open>DbRecord.__init__\<close>\<close>

definition DbRecord_init :: "string \<Rightarrow> pyval \<Rightarrow> DbRecord" where
  "DbRecord_init table rid = \<lparr>row_id = rid, table_name = table, attributes = py_new\<rparr>"

text \<open>The per-row sibling map \<^verbatim>\<open>xref_map\<close>; its iteration order is never used.\<close>

type_synonym xref_map = "path \<rightharpoonup> DbRecord"

subsection \<open>Value providers\<close>

text \<open>
  The five provider classes, with the user's functions (\<^verbatim>\<open>convert\<close>, \<^verbatim>\<open>generate\<close>) as
  functions that return a value or raise. \<open>NoProvider\<close> is any other object put in an
  attribute map: it has no \<^verbatim>\<open>_read\<close>. A dict that the program is given or hands to a
  user's function (an attribute map, the values of a MultiColumnValue) is the list of
  its items in the order of its iteration.
\<close>

datatype provider =
    ColumnValue string "(pyval \<Rightarrow> error + pyval) option"
  | MultiColumnValue "string list" "(string \<times> pyval) list \<Rightarrow> error + pyval"
  | ConstValue pyval
  | DynamicValue "row \<Rightarrow> error + pyval"
  | XReference string string string
  | NoProvider pyval

text \<open>\<^verbatim>\<open>row[col]\<close>\<close>

definition row_get :: "row \<Rightarrow> string \<Rightarrow> error + pyval" where
  "row_get r col = (case map_of r col of None \<Rightarrow> Inl (KeyError col) | Some v \<Rightarrow> Inr (PyStr v))"

text \<open>\<^verbatim>\<open>{key: row[key] for key in self.col_names}\<close>\<close>

fun read_columns :: "row \<Rightarrow> string list \<Rightarrow> pyval pydict \<Rightarrow> error + pyval pydict" where
  "read_columns r [] acc = Inr acc"
| "read_columns r (c # cs) acc =
     (case row_get r c of
        Inl e \<Rightarrow> Inl e
      | Inr v \<Rightarrow>
          (case py_setitem long_bits acc c v of
             None \<Rightarrow> Inl DoesNotReturn
           | Some acc' \<Rightarrow> read_columns r cs acc'))"

text \<open>
  The keyword under which \<^verbatim>\<open>XReference._read\<close> looks for the sibling map in \<^verbatim>\<open>kw_args\<close>:
  \<^verbatim>\<open>kw_args['existing_records']\<close> in ETL.py, \<^verbatim>\<open>kw_args['user_data.txt']\<close> in Debugged.py.
\<close>

fun xref_kwarg :: "source_file \<Rightarrow> string" where
  "xref_kwarg ETL = ''existing_records''"
| "xref_kwarg Debugged = ''user_data.txt''"

text \<open>
  \<^verbatim>\<open>v._read(row, **kw_args)\<close> for each class. Reading an attribute of a record that it
  does not have is a KeyError on the attribute name.
\<close>

fun provider_read :: "source_file \<Rightarrow> provider \<Rightarrow> row \<Rightarrow> (string \<times> xref_map) list \<Rightarrow> error + pyval" where
  "provider_read f (ColumnValue col conv) r kw =
     (case row_get r col of
        Inl e \<Rightarrow> Inl e
      | Inr v \<Rightarrow> (case conv of None \<Rightarrow> Inr v | Some c \<Rightarrow> c v))"
| "provider_read f (MultiColumnValue cols conv) r kw =
     (case read_columns r cols py_new of Inl e \<Rightarrow> Inl e | Inr vs \<Rightarrow> conv (py_items vs))"
| "provider_read f (ConstValue v) r kw = Inr v"
| "provider_read f (DynamicValue g) r kw = g r"
| "provider_read f (XReference t i a) r kw =
     (case map_of kw (xref_kwarg f) of
        None \<Rightarrow> Inl (KeyError (xref_kwarg f))
      | Some existing_records \<Rightarrow>
          (case existing_records (t, i) of
             None \<Rightarrow> Inl (KeyErrorPath (t, i))
           | Some rec \<Rightarrow>
               (case py_getitem (attributes rec) a of
                  None \<Rightarrow> Inl (KeyError a)
                | Some v \<Rightarrow> Inr v)))"
| "provider_read f (NoProvider v) r kw = Inl AttributeError"

subsection \<open>Record specifications\<close>

record RecordSpec =
  attr_map :: "(string \<times> provider) list"
  condition :: "row \<Rightarrow> error + pyval"

text \<open>\<^verbatim>\<open>RecordSpec.__init__\<close>: a missing condition is \<^verbatim>\<open>lambda row: True\<close>.\<close>

definition RecordSpec_init :: "(string \<times> provider) list \<Rightarrow> (row \<Rightarrow> error + pyval) option \<Rightarrow> RecordSpec" where
  "RecordSpec_init am cond =
     \<lparr>attr_map = am,
      condition = (case cond of None \<Rightarrow> (\<lambda>r. Inr (PyBool True)) | Some c \<Rightarrow> c)\<rparr>"

section \<open>Row materializer\<close>

text \<open>
  The dict comprehension of \<^verbatim>\<open>import_attributes\<close>: every provider is read, in the order
  of the attribute map, into the new dict \<^verbatim>\<open>imported\<close>; the first exception ends it.
\<close>

fun read_all :: "source_file \<Rightarrow> (string \<times> provider) list \<Rightarrow> xref_map \<Rightarrow> row \<Rightarrow>
    pyval pydict \<Rightarrow> error + pyval pydict" where
  "read_all f [] xm r acc = Inr acc"
| "read_all f ((k, v) # am) xm r acc =
     (case provider_read f v r [(''existing_records'', xm)] of
        Inl e \<Rightarrow> Inl e
      | Inr x \<Rightarrow>
          (case py_setitem long_bits acc k x of
             None \<Rightarrow> Inl DoesNotReturn
           | Some acc' \<Rightarrow> read_all f am xm r acc'))"

text \<open>\<^verbatim>\<open>'_read' not in dir(v)\<close>\<close>

fun lacks_read :: "provider \<Rightarrow> bool" where
  "lacks_read (NoProvider v) = True"
| "lacks_read p = False"

text \<open>
  \<^verbatim>\<open>DbRecord.import_attributes\<close>. The record is mutable state: the result is the record
  after the call and the exception the call ends with, if any. An AttributeError is
  caught: the first entry without \<^verbatim>\<open>_read\<close> is reported and the program exits; when
  there is none, \<^verbatim>\<open>next\<close> raises StopIteration.
\<close>

definition import_attributes :: "source_file \<Rightarrow> DbRecord \<Rightarrow> (string \<times> provider) list \<Rightarrow>
    xref_map \<Rightarrow> row \<Rightarrow> DbRecord \<times> error option" where
  "import_attributes f rec am existing_records r =
     (case read_all f am existing_records r py_new of
        Inl e \<Rightarrow>
          if e = AttributeError then
            (case find (\<lambda>(k, v). lacks_read v) am of
               None \<Rightarrow> (rec, Some StopIteration)
             | Some (k, v) \<Rightarrow> (rec, Some (SystemExit [InvalidRecordSpec k (table_name rec)])))
          else (rec, Some e)
      | Inr imported \<Rightarrow>
          (case py_update long_bits (attributes rec) imported of
             None \<Rightarrow> (rec, Some DoesNotReturn)
           | Some updated \<Rightarrow> (rec\<lparr>attributes := updated\<rparr>, None)))"

text \<open>\<^verbatim>\<open>spec.condition(row) is False\<close>: identity with the object \<^verbatim>\<open>False\<close>.\<close>

definition is_False :: "pyval \<Rightarrow> bool" where
  "is_False v = (case v of PyBool b \<Rightarrow> \<not> b | _ \<Rightarrow> False)"

text \<open>
  The loop of \<^verbatim>\<open>_records_for_row\<close> over \<^verbatim>\<open>self.specs\<close>, with its two local variables
  \<^verbatim>\<open>records\<close> and \<^verbatim>\<open>xref_map\<close>.
\<close>

fun records_loop :: "source_file \<Rightarrow> row \<Rightarrow> pyval \<Rightarrow> (string \<times> string \<times> RecordSpec) list \<Rightarrow>
    DbRecord list \<Rightarrow> xref_map \<Rightarrow> error + (DbRecord list \<times> xref_map)" where
  "records_loop f r rid [] records xm = Inr (records, xm)"
| "records_loop f r rid ((table, instance, spec) # specs) records xm =
     (case condition spec r of
        Inl e \<Rightarrow> Inl e
      | Inr c \<Rightarrow>
          if is_False c then records_loop f r rid specs records xm
          else
            (case import_attributes f (DbRecord_init table rid) (attr_map spec) xm r of
               (rec, exc) \<Rightarrow>
                 (case exc of
                    Some e \<Rightarrow> Inl e
                  | None \<Rightarrow>
                      records_loop f r rid specs (records @ [rec]) (xm((table, instance) \<mapsto> rec)))))"

text \<open>\<^verbatim>\<open>CsvImporter._records_for_row\<close>\<close>

definition records_for_row :: "source_file \<Rightarrow> (string \<times> string \<times> RecordSpec) list \<Rightarrow> row \<Rightarrow> pyval \<Rightarrow>
    error + DbRecord list" where
  "records_for_row f specs r rid =
     (case records_loop f r rid specs [] Map.empty of
        Inl e \<Rightarrow> Inl e
      | Inr (records, xm) \<Rightarrow> Inr records)"

text \<open>
  \<^verbatim>\<open>CsvImporter.import_data\<close> over the rows that the reader yields: the row id is the
  column \<^verbatim>\<open>id_col\<close> of the row, or the row number when \<^verbatim>\<open>id_col\<close> is None or empty.
\<close>

fun import_rows :: "source_file \<Rightarrow> (string \<times> string \<times> RecordSpec) list \<Rightarrow> string option \<Rightarrow>
    row list \<Rightarrow> int \<Rightarrow> DbRecord list \<Rightarrow> error + DbRecord list" where
  "import_rows f specs id_col [] row_num records = Inr records"
| "import_rows f specs id_col (r # rows) row_num records =
     (case (case id_col of
              None \<Rightarrow> Inr (PyInt row_num)
            | Some c \<Rightarrow> if c = [] then Inr (PyInt row_num) else row_get r c) of
        Inl e \<Rightarrow> Inl e
      | Inr rid \<Rightarrow>
          (case records_for_row f specs r rid of
             Inl e \<Rightarrow> Inl e
           | Inr new \<Rightarrow> import_rows f specs id_col rows (row_num + 1) (records @ new)))"

definition import_data :: "source_file \<Rightarrow> (string \<times> string \<times> RecordSpec) list \<Rightarrow> string option \<Rightarrow>
    row list \<Rightarrow> error + DbRecord list" where
  "import_data f specs id_col rows = import_rows f specs id_col rows 0 []"

text \<open>The key of an entry of \<^verbatim>\<open>self.specs\<close>, and whether a spec is materialized on a row.\<close>

definition spec_key :: "string \<times> string \<times> RecordSpec \<Rightarrow> path" where
  "spec_key x = (fst x, fst (snd x))"

definition materialized :: "row \<Rightarrow> RecordSpec \<Rightarrow> bool" where
  "materialized r spec = (case condition spec r of Inl e \<Rightarrow> False | Inr c \<Rightarrow> \<not> is_False c)"

section \<open>Record serializer\<close>

subsection \<open>The regular expression \<^verbatim>\<open>string_exp\<close>\<close>

text \<open>
  The fragment of Python's \<^verbatim>\<open>re\<close> that \<^verbatim>\<open>string_exp\<close> is written in: literal text, a
  character class, alternation, the negative lookahead \<^verbatim>\<open>(?!...)\<close>, \<^verbatim>\<open>.*\<close> and
  concatenation. Values are byte strings, so \<^verbatim>\<open>re.IGNORECASE\<close> folds the ASCII letters.
\<close>

datatype regex =
    Lit string
  | AnyOf string
  | Alt regex regex
  | NegLookahead regex
  | DotStar
  | Seq regex regex

definition lower_ascii :: "char \<Rightarrow> char" where
  "lower_ascii c =
     (case map_of (zip ''ABCDEFGHIJKLMNOPQRSTUVWXYZ'' ''abcdefghijklmnopqrstuvwxyz'') c of
        None \<Rightarrow> c
      | Some l \<Rightarrow> l)"

definition fold_case :: "bool \<Rightarrow> char \<Rightarrow> char" where
  "fold_case ignorecase c = (if ignorecase then lower_ascii c else c)"

text \<open>\<^verbatim>\<open>.*\<close> takes any number of characters other than the newline.\<close>

fun dot_star :: "string \<Rightarrow> string list" where
  "dot_star [] = [[]]"
| "dot_star (c # v) = (if c = CHR 0x0A then [c # v] else (c # v) # dot_star v)"

text \<open>
  \<open>rx_match ic rx v\<close> lists what is left of \<open>v\<close> after each way of matching \<open>rx\<close> at its
  start; \<^verbatim>\<open>pattern.match(v)\<close> succeeds when there is one.
\<close>

fun rx_match :: "bool \<Rightarrow> regex \<Rightarrow> string \<Rightarrow> string list" where
  "rx_match ic (Lit s) v =
     (if length s \<le> length v \<and> map (fold_case ic) (take (length s) v) = map (fold_case ic) s
      then [drop (length s) v] else [])"
| "rx_match ic (AnyOf cs) v =
     (case v of
        [] \<Rightarrow> []
      | c # v' \<Rightarrow> if fold_case ic c \<in> set (map (fold_case ic) cs) then [v'] else [])"
| "rx_match ic (Alt a b) v = rx_match ic a v @ rx_match ic b v"
| "rx_match ic (NegLookahead a) v = (if rx_match ic a v = [] then [v] else [])"
| "rx_match ic DotStar v = dot_star v"
| "rx_match ic (Seq a b) v = concat (map (rx_match ic b) (rx_match ic a v))"

definition re_match :: "bool \<Rightarrow> regex \<Rightarrow> string \<Rightarrow> bool" where
  "re_match ic rx v = (rx_match ic rx v \<noteq> [])"

definition sql_fun :: "string list" where
  "sql_fun = [''true'', ''false'', ''avg'', ''count'', ''first'', ''last'', ''max'', ''min'',
              ''sum'', ''ucase'', ''lcase'', ''mid'', ''len'', ''round'', ''now'', ''format'']"

text \<open>\<^verbatim>\<open>a|b|...\<close>\<close>

fun alternatives :: "regex \<Rightarrow> regex list \<Rightarrow> regex" where
  "alternatives a [] = a"
| "alternatives a (b # bs) = Alt a (alternatives b bs)"

text \<open>
  \<^verbatim>\<open>re.compile('^(?!["\']|{}).*[a-z]'.format('|'.join(sql_fun)), re.IGNORECASE)\<close>;
  the anchor is what \<^verbatim>\<open>match\<close> does anyway. The two quote characters are the bytes
  0x22 and 0x27.
\<close>

definition string_exp :: regex where
  "string_exp =
     Seq (NegLookahead (alternatives (AnyOf [CHR 0x22, CHR 0x27]) (map Lit sql_fun)))
         (Seq DotStar (AnyOf ''abcdefghijklmnopqrstuvwxyz''))"

definition string_exp_match :: "string \<Rightarrow> bool" where
  "string_exp_match v = re_match True string_exp v"

subsection \<open>\<^verbatim>\<open>insert_statement\<close>\<close>

text \<open>\<^verbatim>\<open>sep.join(xs)\<close> on strings.\<close>

fun join :: "string \<Rightarrow> string list \<Rightarrow> string" where
  "join sep [] = []"
| "join sep [x] = x"
| "join sep (x # y # ys) = x @ sep @ join sep (y # ys)"

text \<open>\<^verbatim>\<open>', '.join(self.attributes.values())\<close>: a value that is no string is a TypeError.\<close>

fun str_values :: "pyval list \<Rightarrow> error + string list" where
  "str_values [] = Inr []"
| "str_values (v # vs) =
     (case v of
        PyStr s \<Rightarrow> (case str_values vs of Inl e \<Rightarrow> Inl e | Inr ss \<Rightarrow> Inr (s # ss))
      | _ \<Rightarrow> Inl TypeError)"

text \<open>
  The sanity checks: the loop over \<^verbatim>\<open>self.attributes\<close> with what it prints and the flag
  \<^verbatim>\<open>error\<close>.
\<close>

fun sanity_checks :: "string \<Rightarrow> (string \<times> pyval) list \<Rightarrow> message list \<Rightarrow> bool \<Rightarrow> message list \<times> bool" where
  "sanity_checks table [] printed err = (printed, err)"
| "sanity_checks table ((k, v) # kvs) printed err =
     (case v of
        PyStr s \<Rightarrow>
          if string_exp_match s
          then sanity_checks table kvs (printed @ [UnquotedWarning s k table]) err
          else sanity_checks table kvs printed err
      | _ \<Rightarrow> sanity_checks table kvs (printed @ [NotAString v k table]) True)"

text \<open>
  \<^verbatim>\<open>DbRecord.insert_statement\<close>: the statement together with what was printed, or the
  exit after the printed errors.
\<close>

definition insert_statement :: "DbRecord \<Rightarrow> error + (message list \<times> string)" where
  "insert_statement rec =
     (let col = '' ('' @ join '', '' (map fst (py_items (attributes rec))) @ '')'';
          (printed, err) = sanity_checks (table_name rec) (py_items (attributes rec)) [] False
      in if err then Inl (SystemExit (printed @ [Aborting]))
         else
           (case str_values (map snd (py_items (attributes rec))) of
              Inl e \<Rightarrow> Inl e
            | Inr vs \<Rightarrow>
                (let val = '' ('' @ join '', '' vs @ '')'';
                     sql = ''INSERT INTO '' @ table_name rec @ col @ '' VALUES'' @ val @ '';'' @ [CHR 0x0A]
                 in Inr (printed, sql))))"

section \<open>Dependency resolver\<close>

text \<open>
  \<^verbatim>\<open>data\<close> of \<^verbatim>\<open>_toposort\<close> is a dict from a path to the set of paths it depends on. A
  Python set has an iteration order that the program does not choose: \<open>iter\<close> is that
  order, a parameter of every function that iterates over a set.
\<close>

type_synonym dependency_map = "(path \<times> path set) list"

definition iteration_order :: "(path set \<Rightarrow> path list) \<Rightarrow> bool" where
  "iteration_order iter = (\<forall>S. finite S \<longrightarrow> set (iter S) = S \<and> distinct (iter S))"

text \<open>
  The \<^verbatim>\<open>while True\<close> loop of \<^verbatim>\<open>_toposort\<close>, with the layers it yields collected in a
  list, and the final \<^verbatim>\<open>assert not data\<close>.
\<close>

function toposort_loop :: "dependency_map \<Rightarrow> error + path set list" where
  "toposort_loop data =
     (let ordered = set (map fst (filter (\<lambda>(item, dep). dep = {}) data))
      in if ordered = {} then (if data = [] then Inr [] else Inl (AssertionError data))
         else
           (case toposort_loop
                   (map (\<lambda>(item, dep). (item, dep - ordered))
                        (filter (\<lambda>(item, dep). item \<notin> ordered) data)) of
              Inl e \<Rightarrow> Inl e
            | Inr layers \<Rightarrow> Inr (ordered # layers)))"
  by pat_completeness auto
termination
proof (relation "measure length")
  show "wf (measure length)" by simp
next
  fix data :: dependency_map and ordered :: "path set"
  assume ord: "ordered = set (map fst (filter (\<lambda>(item, dep). dep = {}) data))"
    and ne: "ordered \<noteq> {}"
  from ord ne obtain x where x: "x \<in> set data" "fst x \<in> ordered"
    by auto
  then have "length (filter (\<lambda>(item, dep). item \<notin> ordered) data) < length data"
    by (intro length_filter_less[of x]) (auto simp: case_prod_beta)
  then show "(map (\<lambda>(item, dep). (item, dep - ordered))
                (filter (\<lambda>(item, dep). item \<notin> ordered) data), data) \<in> measure length"
    by simp
qed

declare toposort_loop.simps [simp del]

text \<open>
  \<^verbatim>\<open>_toposort\<close>: self dependencies are discarded, every path that is depended on and
  is no key gets an empty entry, then the loop runs. \<^verbatim>\<open>reduce\<close> has no initial value
  and raises a TypeError on an empty dict.
\<close>

definition toposort :: "(path set \<Rightarrow> path list) \<Rightarrow> dependency_map \<Rightarrow> error + path set list" where
  "toposort iter data =
     (let data1 = map (\<lambda>(k, v). (k, v - {k})) data
      in if data1 = [] then Inl TypeError
         else
           (let extra_items = \<Union> (set (map snd data1)) - set (map fst data1);
                data2 = dict_update data1 (map (\<lambda>item. (item, {})) (iter extra_items))
            in toposort_loop data2))"

section \<open>Importer construction\<close>

text \<open>The specification set: table name to instance name to RecordSpec.\<close>

type_synonym import_specs = "(string \<times> (string \<times> RecordSpec) list) list"

text \<open>\<^verbatim>\<open>flat_specs\<close>\<close>

definition flatten_specs :: "import_specs \<Rightarrow> (path \<times> RecordSpec) list" where
  "flatten_specs import_specs =
     fold (\<lambda>(t, table_spec) flat_specs.
             dict_update flat_specs (fold (\<lambda>(i, s) specs. dict_set (t, i) s specs) table_spec []))
          import_specs []"

text \<open>
  \<^verbatim>\<open>set([(x.table_name, x.instance_name) for x in s.attr_map.values() if isinstance(x, XReference)])\<close>
\<close>

fun xref_target :: "provider \<Rightarrow> path option" where
  "xref_target (XReference t i a) = Some (t, i)"
| "xref_target p = None"

definition xref_deps :: "RecordSpec \<Rightarrow> path set" where
  "xref_deps s = set (List.map_filter xref_target (map snd (attr_map s)))"

text \<open>\<^verbatim>\<open>dependency_map\<close>\<close>

definition dependency_map_of :: "(path \<times> RecordSpec) list \<Rightarrow> dependency_map" where
  "dependency_map_of flat_specs =
     fold (\<lambda>(p, s) dm. dict_set p (xref_deps s) dm) flat_specs []"

text \<open>
  A key of \<^verbatim>\<open>sorted_keys\<close> without a spec is a KeyError on \<^verbatim>\<open>flat_specs[(t, i)]\<close>:
  ETL.py lets it escape; Debugged.py catches it, prints the instance and the table of
  the key at which the comprehension stopped, and exits.
\<close>

fun missing_spec :: "source_file \<Rightarrow> string \<Rightarrow> string \<Rightarrow> error" where
  "missing_spec ETL t i = KeyErrorPath (t, i)"
| "missing_spec Debugged t i = SystemExit [SpecNotFound i t]"

text \<open>The list \<^verbatim>\<open>[(t, i, flat_specs[(t, i)]) for (t, i) in sorted_keys]\<close>.\<close>

fun lookup_specs :: "source_file \<Rightarrow> (path \<times> RecordSpec) list \<Rightarrow> path list \<Rightarrow>
    error + (string \<times> string \<times> RecordSpec) list" where
  "lookup_specs f flat_specs [] = Inr []"
| "lookup_specs f flat_specs ((t, i) # ks) =
     (case dict_get flat_specs (t, i) of
        None \<Rightarrow> Inl (missing_spec f t i)
      | Some s \<Rightarrow>
          (case lookup_specs f flat_specs ks of
             Inl e \<Rightarrow> Inl e
           | Inr specs \<Rightarrow> Inr ((t, i, s) # specs)))"

text \<open>\<^verbatim>\<open>CsvImporter.__init__\<close>: the value of \<^verbatim>\<open>self.specs\<close>, or the exception.\<close>

definition CsvImporter_init :: "(path set \<Rightarrow> path list) \<Rightarrow> source_file \<Rightarrow> import_specs \<Rightarrow>
    error + (string \<times> string \<times> RecordSpec) list" where
  "CsvImporter_init iter f import_specs =
     (let flat_specs = flatten_specs import_specs;
          dependency_map = dependency_map_of flat_specs
      in case toposort iter dependency_map of
           Inl e \<Rightarrow> Inl e
         | Inr layers \<Rightarrow> lookup_specs f flat_specs (concat (map iter layers)))"

text \<open>
  The XReference graph of a specification set: an edge from a declared path to each
  other path that one of its providers refers to.
\<close>

definition xref_graph :: "import_specs \<Rightarrow> (path \<times> path) set" where
  "xref_graph import_specs =
     (\<Union>(p, s) \<in> set (flatten_specs import_specs). Pair p ` (xref_deps s - {p}))"

text \<open>\<open>b\<close> occurs in \<open>ks\<close>, and \<open>a\<close> occurs after the first \<open>b\<close>.\<close>

definition precedes :: "'a \<Rightarrow> 'a \<Rightarrow> 'a list \<Rightarrow> bool" where
  "precedes b a ks = (a \<in> set (drop 1 (dropWhile (\<lambda>x. x \<noteq> b) ks)))"

section \<open>The scenarios\<close>

text \<open>
  Modelled from the spec: the converter \<^verbatim>\<open>int_as_str\<close> of the Person scenario is not
  under src/. On a text of decimal digits it is \<^verbatim>\<open>str(int(v))\<close>, the digits without
  leading zeros; anything else raises.
\<close>

definition int_as_str :: "pyval \<Rightarrow> error + pyval" where
  "int_as_str v =
     (case v of
        PyStr s \<Rightarrow>
          if s \<noteq> [] \<and> list_all (\<lambda>c. c \<in> set ''0123456789'') s
          then Inr (PyStr (case dropWhile (\<lambda>c. c = CHR ''0'') s of [] \<Rightarrow> ''0'' | d # ds \<Rightarrow> d # ds))
          else Inl (Raised ''ValueError'')
      | _ \<Rightarrow> Inl (Raised ''ValueError''))"

definition person_spec :: RecordSpec where
  "person_spec =
     RecordSpec_init
       [(''id'', ConstValue (PyStr ''1'')),
        (''name'', ColumnValue ''name'' None),
        (''age'', ColumnValue ''age'' (Some int_as_str))]
       None"

definition order_spec :: RecordSpec where
  "order_spec = RecordSpec_init [(''customer_id'', XReference ''Person'' ''p1'' ''id'')] None"

definition scenario_row :: row where
  "scenario_row = [(''name'', ''Alice''), (''age'', ''30'')]"

definition scenario_specs :: import_specs where
  "scenario_specs = [(''Person'', [(''p1'', person_spec)]), (''Order'', [(''o1'', order_spec)])]"

text \<open>
  The records of the two scenarios with the tables of their attributes, two specs with
  a condition of their own, and the record of such a spec.
\<close>

definition person_record :: DbRecord where
  "person_record = \<lparr>row_id = PyInt 0, table_name = ''Person'',
     attributes = [None, None, Some (''age'', PyStr ''30''), None, None, Some (''id'', PyStr ''1''),
                   None, Some (''name'', PyStr ''Alice'')]\<rparr>"

definition order_record :: DbRecord where
  "order_record = \<lparr>row_id = PyInt 0, table_name = ''Order'',
     attributes = [None, None, None, Some (''customer_id'', PyStr ''1''), None, None, None, None]\<rparr>"

definition second_person_record :: DbRecord where
  "second_person_record = \<lparr>row_id = PyInt 0, table_name = ''Person'',
     attributes = [None, None, None, None, None, Some (''id'', PyStr ''2''), None, None]\<rparr>"

definition never_spec :: RecordSpec where
  "never_spec = RecordSpec_init [(''id'', ConstValue (PyStr ''2''))] (Some (\<lambda>r. Inr (PyBool False)))"

definition zero_spec :: RecordSpec where
  "zero_spec = RecordSpec_init [(''id'', ConstValue (PyStr ''2''))] (Some (\<lambda>r. Inr (PyInt 0)))"

text \<open>
  Three more specification sets: an Order that refers to a Person that is not
  declared; two specs that refer to each other; and the same two, one of which also
  refers to a spec that is not declared.
\<close>

definition dangling_specs :: import_specs where
  "dangling_specs = [(''Order'', [(''o1'', order_spec)])]"

definition cyclic_specs :: import_specs where
  "cyclic_specs =
     [(''A'', [(''a'', RecordSpec_init [(''x'', XReference ''B'' ''b'' ''y'')] None)]),
      (''B'', [(''b'', RecordSpec_init [(''y'', XReference ''A'' ''a'' ''x'')] None)])]"

definition cyclic_dangling_specs :: import_specs where
  "cyclic_dangling_specs =
     [(''A'', [(''a'', RecordSpec_init [(''x'', XReference ''B'' ''b'' ''y''),
                                         (''z'', XReference ''M'' ''m'' ''y'')] None)]),
      (''B'', [(''b'', RecordSpec_init [(''y'', XReference ''A'' ''a'' ''x'')] None)])]"

section \<open>Vocabulary of the properties\<close>

text \<open>
  What the statements about \<^verbatim>\<open>string_exp\<close> are written with: a value that starts
  with a quote character, a value that starts with a token whatever the case of its
  letters, the letters, and the part of a value before its first newline.
\<close>
definition starts_with_quote :: "string \<Rightarrow> bool" where
  "starts_with_quote v = (case v of [] \<Rightarrow> False | c # cs \<Rightarrow> c = CHR 0x22 \<or> c = CHR 0x27)"

definition starts_with_ignorecase :: "string \<Rightarrow> string \<Rightarrow> bool" where
  "starts_with_ignorecase tok v =
     (length tok \<le> length v \<and> map lower_ascii (take (length tok) v) = map lower_ascii tok)"

definition lowercase_letter :: "char \<Rightarrow> bool" where
  "lowercase_letter c = (c \<in> set ''abcdefghijklmnopqrstuvwxyz'')"

definition ascii_letter :: "char \<Rightarrow> bool" where
  "ascii_letter c = (c \<in> set ''abcdefghijklmnopqrstuvwxyzABCDEFGHIJKLMNOPQRSTUVWXYZ'')"

definition first_line :: "string \<Rightarrow> string" where
  "first_line v = takeWhile (\<lambda>c. c \<noteq> CHR 0x0A) v"

text \<open>
  The heuristic in the words of the specification: no quote character at the start,
  no token of the allow-list at the start, and a lowercase letter somewhere.
\<close>
definition flagged_as_specified :: "string \<Rightarrow> bool" where
  "flagged_as_specified v =
     (\<not> starts_with_quote v \<and> \<not> (\<exists>tok \<in> set sql_fun. starts_with_ignorecase tok v)
      \<and> (\<exists>c \<in> set v. lowercase_letter c))"

text \<open>The attributes of the Person record as texts, in the order of its table.\<close>
definition person_attributes :: "(string \<times> string) list" where
  "person_attributes = [(''age'', ''30''), (''id'', ''1''), (''name'', ''Alice'')]"

text \<open>
  The attribute map of the Person spec in the order in which Python 2 iterates the
  dict display \<^verbatim>\<open>{id: ..., name: ..., age: ...}\<close>.
\<close>

definition person_spec_iterated :: RecordSpec where
  "person_spec_iterated =
     RecordSpec_init
       [(''age'', ColumnValue ''age'' (Some int_as_str)),
        (''id'', ConstValue (PyStr ''1'')),
        (''name'', ColumnValue ''name'' None)]
       None"

text \<open>\<open>x1, x2, ...\<close>: the first text, and each further text after a comma and a space.\<close>

abbreviation comma_separated :: "string list \<Rightarrow> string" where
  "comma_separated xs \<equiv> (case xs of [] \<Rightarrow> [] | x # ys \<Rightarrow> x @ concat (map (\<lambda>y. '', '' @ y) ys))"

text \<open>
  What the statements about \<^verbatim>\<open>_toposort\<close> are written with. One round of the loop
  takes the keys that are \<open>ready\<close> and goes on with what is \<open>remaining\<close>; \<open>dep_rel\<close> is
  the graph of a dependency map, with an edge from a key to each of its dependencies;
  a map is \<open>closed\<close> when every dependency is a key; \<open>without_self\<close> discards the self
  dependencies.
\<close>

definition ready :: "('a \<times> 'b set) list \<Rightarrow> 'a set" where
  "ready data = set (map fst (filter (\<lambda>(item, dep). dep = {}) data))"

definition remaining :: "('a \<times> 'a set) list \<Rightarrow> ('a \<times> 'a set) list" where
  "remaining data =
     map (\<lambda>(item, dep). (item, dep - ready data)) (filter (\<lambda>(item, dep). item \<notin> ready data) data)"

definition dep_rel :: "('a \<times> 'b set) list \<Rightarrow> ('a \<times> 'b) set" where
  "dep_rel data = (\<Union>(k, dep) \<in> set data. Pair k ` dep)"

definition closed :: "('a \<times> 'a set) list \<Rightarrow> bool" where
  "closed data = (\<forall>(k, dep) \<in> set data. dep \<subseteq> fst ` set data)"

definition without_self :: "('a \<times> 'a set) list \<Rightarrow> ('a \<times> 'a set) list" where
  "without_self data = map (\<lambda>(k, v). (k, v - {k})) data"

text \<open>
  What is left of \<open>data\<close> when the loop cannot go on: entries of \<open>data\<close>, each with a
  dependency, all of them on keys that are left, and among them every key of \<open>data\<close>
  that lies on a cycle.
\<close>

definition stuck_remainder :: "('a \<times> 'a set) list \<Rightarrow> ('a \<times> 'a set) list \<Rightarrow> bool" where
  "stuck_remainder data rem \<longleftrightarrow>
     rem \<noteq> [] \<and> fst ` set rem \<subseteq> fst ` set data
     \<and> (\<forall>(k, dep) \<in> set rem. dep \<noteq> {} \<and> dep \<subseteq> fst ` set rem)
     \<and> dep_rel rem \<subseteq> dep_rel data
     \<and> (\<forall>k. (k, k) \<in> (dep_rel data)\<^sup>+ \<longrightarrow> k \<in> fst ` set rem)"



section \<open>Properties of the row materializer\<close>

lemma is_False_iff: "is_False c \<longleftrightarrow> c = PyBool False"
  by (cases c) (auto simp: is_False_def)

lemma read_all_fails:
  "(k, v) \<in> set am \<Longrightarrow> provider_read f v r [(''existing_records'', xm)] = Inl e \<Longrightarrow>
   \<exists>e'. read_all f am xm r acc = Inl e'"
proof (induction am arbitrary: acc)
  case Nil
  then show ?case by simp
next
  case (Cons a am)
  obtain k' v' where a: "a = (k', v')" by (cases a)
  show ?case
  proof (cases "provider_read f v' r [(''existing_records'', xm)]")
    case (Inl e1)
    then show ?thesis by (simp add: a)
  next
    case (Inr x)
    with Cons.prems a have "(k, v) \<in> set am" by auto
    from Cons.IH[OF this Cons.prems(2)] Inr show ?thesis
      by (simp add: a split: option.splits)
  qed
qed

lemma import_attributes_error_unchanged:
  "read_all f am xm r py_new = Inl e \<Longrightarrow> \<exists>e'. import_attributes f rec am xm r = (rec, Some e')"
  by (auto simp: import_attributes_def split: option.splits)

lemma import_attributes_table:
  "import_attributes f rec am xm r = (rec', None) \<Longrightarrow> table_name rec' = table_name rec"
  by (auto simp: import_attributes_def split: sum.splits if_splits option.splits)

lemma records_loop_Cons:
  "records_loop f r rid ((t, i, s) # specs) recs xm =
     (case condition s r of
        Inl e \<Rightarrow> Inl e
      | Inr c \<Rightarrow>
          if c = PyBool False then records_loop f r rid specs recs xm
          else
            (case import_attributes f (DbRecord_init t rid) (attr_map s) xm r of
               (rec, exc) \<Rightarrow>
                 (case exc of
                    Some e \<Rightarrow> Inl e
                  | None \<Rightarrow> records_loop f r rid specs (recs @ [rec]) (xm((t, i) \<mapsto> rec)))))"
  by (simp add: is_False_iff del: fun_upd_apply split: sum.splits)

lemma records_loop_ConsE:
  assumes "records_loop f r rid ((t, i, s) # specs) recs xm = Inr (recs', xm')"
  obtains (skip) "condition s r = Inr (PyBool False)"
      "records_loop f r rid specs recs xm = Inr (recs', xm')"
  | (mat) c rec where "condition s r = Inr c" "c \<noteq> PyBool False"
      "import_attributes f (DbRecord_init t rid) (attr_map s) xm r = (rec, None)"
      "records_loop f r rid specs (recs @ [rec]) (xm((t, i) \<mapsto> rec)) = Inr (recs', xm')"
proof (cases "condition s r")
  case (Inl e)
  with assms show ?thesis by (simp add: is_False_iff)
next
  case (Inr c)
  show ?thesis
  proof (cases "c = PyBool False")
    case True
    with assms Inr show ?thesis by (intro skip) (simp_all add: is_False_iff)
  next
    case False
    obtain rec eo where ia: "import_attributes f (DbRecord_init t rid) (attr_map s) xm r = (rec, eo)"
      by (cases "import_attributes f (DbRecord_init t rid) (attr_map s) xm r")
    with assms Inr False have "eo = None"
      by (cases eo) (simp_all add: is_False_iff)
    with assms Inr False ia show ?thesis
      by (intro mat[of c rec]) (simp_all add: is_False_iff del: fun_upd_apply)
  qed
qed

lemma materialized_iff:
  "materialized r s \<longleftrightarrow> (\<exists>c. condition s r = Inr c \<and> c \<noteq> PyBool False)"
  by (auto simp: materialized_def is_False_iff split: sum.splits)

lemma records_loop_append:
  "records_loop f r rid (pre @ post) recs xm =
     (case records_loop f r rid pre recs xm of
        Inl e \<Rightarrow> Inl e
      | Inr (recs', xm') \<Rightarrow> records_loop f r rid post recs' xm')"
proof (induction pre arbitrary: recs xm)
  case Nil
  show ?case by simp
next
  case (Cons a pre)
  obtain t i s where a: "a = (t, i, s)" by (cases a)
  show ?case
    unfolding a append_Cons records_loop_Cons
    by (simp add: Cons.IH del: fun_upd_apply records_loop.simps split: sum.splits prod.splits option.splits)
qed

lemma records_loop_dom:
  "records_loop f r rid specs recs xm = Inr (recs', xm') \<Longrightarrow>
   dom xm' = dom xm \<union> {spec_key x | x. x \<in> set specs \<and> materialized r (snd (snd x))}"
proof (induction specs arbitrary: recs xm)
  case Nil
  then show ?case by simp
next
  case (Cons a specs)
  obtain t i s where a: "a = (t, i, s)" by (cases a)
  from Cons.prems[unfolded a] show ?case
  proof (cases rule: records_loop_ConsE)
    case skip
    from Cons.IH[OF skip(2)] skip(1) show ?thesis
      by (auto simp: a materialized_iff spec_key_def)
  next
    case (mat c rec)
    from Cons.IH[OF mat(4)] have "dom xm' = insert (t, i) (dom xm) \<union>
        {spec_key x | x. x \<in> set specs \<and> materialized r (snd (snd x))}"
      by (simp del: fun_upd_apply)
    with mat(1,2) show ?thesis
      by (auto simp: a materialized_iff spec_key_def)
  qed
qed

lemma records_loop_tables:
  "records_loop f r rid specs recs xm = Inr (recs', xm') \<Longrightarrow>
   map table_name recs' =
     map table_name recs @ map fst (filter (\<lambda>x. materialized r (snd (snd x))) specs)"
proof (induction specs arbitrary: recs xm)
  case Nil
  then show ?case by simp
next
  case (Cons a specs)
  obtain t i s where a: "a = (t, i, s)" by (cases a)
  from Cons.prems[unfolded a] show ?case
  proof (cases rule: records_loop_ConsE)
    case skip
    from Cons.IH[OF skip(2)] skip(1) show ?thesis
      by (simp add: a materialized_iff)
  next
    case (mat c rec)
    from import_attributes_table[OF mat(3)] have "table_name rec = t"
      by (simp add: DbRecord_init_def)
    with Cons.IH[OF mat(4)] mat(1,2) show ?thesis
      by (simp add: a materialized_iff)
  qed
qed

lemma records_loop_registered:
  "records_loop f r rid specs recs xm = Inr (recs', xm') \<Longrightarrow>
   \<forall>k rec. xm k = Some rec \<longrightarrow> rec \<in> set recs \<and> table_name rec = fst k \<Longrightarrow>
   set recs \<subseteq> set recs' \<and> (\<forall>k rec. xm' k = Some rec \<longrightarrow> rec \<in> set recs' \<and> table_name rec = fst k)"
proof (induction specs arbitrary: recs xm)
  case Nil
  then show ?case by simp
next
  case (Cons a specs)
  obtain t i s where a: "a = (t, i, s)" by (cases a)
  from Cons.prems(1)[unfolded a] show ?case
  proof (cases rule: records_loop_ConsE)
    case skip
    from Cons.IH[OF skip(2) Cons.prems(2)] show ?thesis .
  next
    case (mat c rec)
    from import_attributes_table[OF mat(3)] have t: "table_name rec = t"
      by (simp add: DbRecord_init_def)
    have "\<forall>k rec'. (xm((t, i) \<mapsto> rec)) k = Some rec' \<longrightarrow>
        rec' \<in> set (recs @ [rec]) \<and> table_name rec' = fst k"
      using Cons.prems(2) t by auto
    from Cons.IH[OF mat(4) this] show ?thesis by auto
  qed
qed

lemmas scenario_defs =
  person_spec_def order_spec_def scenario_row_def RecordSpec_init_def is_False_def

text \<open>What the specs of the scenarios import from the row \<open>{name: "Alice", age: "30"}\<close>.\<close>

lemma person_import:
  "import_attributes f (DbRecord_init ''Person'' (PyInt 0)) (attr_map person_spec) xm scenario_row =
     (person_record, None)"
  by code_simp

lemma person_iterated_import:
  "import_attributes f (DbRecord_init ''Person'' (PyInt 0)) (attr_map person_spec_iterated) xm scenario_row =
     (person_record, None)"
  by code_simp

lemma order_import:
  "import_attributes ETL (DbRecord_init ''Order'' (PyInt 0)) (attr_map order_spec)
     [(''Person'', ''p1'') \<mapsto> person_record] scenario_row = (order_record, None)"
  by code_simp

lemma second_person_import:
  "import_attributes f (DbRecord_init ''Person'' (PyInt 0)) (attr_map zero_spec) xm scenario_row =
     (second_person_record, None)"
  by code_simp

lemma person_loop:
  "records_loop ETL scenario_row (PyInt 0) [(''Person'', ''p1'', person_spec)] [] Map.empty =
     Inr ([person_record], [(''Person'', ''p1'') \<mapsto> person_record])"
proof -
  have "condition person_spec scenario_row = Inr (PyBool True)"
    by (simp add: scenario_defs)
  then show ?thesis
    by (simp add: records_loop_Cons person_import del: fun_upd_apply records_loop.simps(2))
qed

subsection \<open>Reading a sibling's attribute\<close>

text \<open>
  In ETL.py an XReference reads the attribute of the sibling record that the per-row
  map holds under (table, instance), and the Order of the scenario gets
  \<open>customer_id = "1"\<close>.
\<close>
lemma xreference_read_etl:
  "xm (t, i) = Some rec \<Longrightarrow> py_getitem (attributes rec) a = Some v \<Longrightarrow>
   provider_read ETL (XReference t i a) r [(''existing_records'', xm)] = Inr v"
  by simp

lemma order_scenario_etl:
  "records_for_row ETL [(''Person'', ''p1'', person_spec), (''Order'', ''o1'', order_spec)]
     scenario_row (PyInt 0) =
   Inr [person_record, order_record]
   \<and> py_getitem (attributes order_record) ''customer_id'' = Some (PyStr ''1'')"
proof -
  have "condition order_spec scenario_row = Inr (PyBool True)"
    by (simp add: scenario_defs)
  then have "records_loop ETL scenario_row (PyInt 0) [(''Order'', ''o1'', order_spec)] [person_record]
      [(''Person'', ''p1'') \<mapsto> person_record] =
      Inr ([person_record, order_record],
           [(''Person'', ''p1'') \<mapsto> person_record, (''Order'', ''o1'') \<mapsto> order_record])"
    by (simp add: records_loop_Cons order_import del: fun_upd_apply records_loop.simps(2))
  with person_loop
  have "records_loop ETL scenario_row (PyInt 0)
      ([(''Person'', ''p1'', person_spec)] @ [(''Order'', ''o1'', order_spec)]) [] Map.empty =
      Inr ([person_record, order_record],
           [(''Person'', ''p1'') \<mapsto> person_record, (''Order'', ''o1'') \<mapsto> order_record])"
    by (simp only: records_loop_append sum.case prod.case)
  then have "records_for_row ETL [(''Person'', ''p1'', person_spec), (''Order'', ''o1'', order_spec)]
      scenario_row (PyInt 0) = Inr [person_record, order_record]"
    by (simp add: records_for_row_def del: records_loop.simps)
  moreover have "py_getitem (attributes order_record) ''customer_id'' = Some (PyStr ''1'')"
    by (simp add: order_record_def py_getitem_def py_items_def List.map_filter_simps)
  ultimately show ?thesis by (rule conjI)
qed

text \<open>
  C5. Evaluating an XReference returns the attribute of the sibling record found under
  (table, instance) in the per-row sibling map; the Order of the Person/Order scenario
  has \<open>customer_id = "1"\<close>. Debugged.py does not do this: its \<^verbatim>\<open>_read\<close> looks for the
  keyword \<^verbatim>\<open>'user_data.txt'\<close>, which \<^verbatim>\<open>import_attributes\<close> never passes, so every
  XReference raises a KeyError on that keyword, whatever the sibling map holds, and
  the row of the scenario yields no record.
\<close>
theorem xreference_read_debugged:
  "provider_read Debugged (XReference t i a) r [(''existing_records'', xm)] = Inl (KeyError ''user_data.txt'')
   \<and> records_for_row Debugged [(''Person'', ''p1'', person_spec), (''Order'', ''o1'', order_spec)]
        scenario_row (PyInt 0) = Inl (KeyError ''user_data.txt'')"
proof -
  have "condition person_spec scenario_row = Inr (PyBool True)"
    and "condition order_spec scenario_row = Inr (PyBool True)"
    by (simp_all add: scenario_defs)
  moreover have "import_attributes Debugged (DbRecord_init ''Order'' (PyInt 0)) (attr_map order_spec)
      [(''Person'', ''p1'') \<mapsto> person_record] scenario_row =
      (DbRecord_init ''Order'' (PyInt 0), Some (KeyError ''user_data.txt''))"
    by (simp add: order_spec_def RecordSpec_init_def import_attributes_def)
  ultimately
  have "records_for_row Debugged [(''Person'', ''p1'', person_spec), (''Order'', ''o1'', order_spec)]
      scenario_row (PyInt 0) = Inl (KeyError ''user_data.txt'')"
    by (simp add: records_for_row_def records_loop_Cons person_import
        del: fun_upd_apply records_loop.simps(2))
  moreover
  have "provider_read Debugged (XReference t i a) r [(''existing_records'', xm)] =
      Inl (KeyError ''user_data.txt'')"
    by simp
  ultimately show ?thesis by (rule conjI[rotated])
qed

subsection \<open>Atomicity of \<^verbatim>\<open>import_attributes\<close>\<close>

text \<open>
  C9. \<^verbatim>\<open>import_attributes\<close> computes every provider value before it stores any: when
  a provider of the attribute map raises, the call ends with an exception and the
  record is what it was before the call; the attributes of a freshly constructed
  record are still empty.
\<close>
theorem import_attributes_atomic:
  assumes "(k, v) \<in> set am"
    and "provider_read f v r [(''existing_records'', xm)] = Inl e"
  shows "(\<exists>e'. import_attributes f rec am xm r = (rec, Some e'))
       \<and> attributes (fst (import_attributes f (DbRecord_init t rid) am xm r)) = py_new"
proof -
  from read_all_fails[OF assms] obtain e1 where e1: "read_all f am xm r py_new = Inl e1"
    by blast
  from import_attributes_error_unchanged[OF e1]
  have "\<exists>e'. import_attributes f rec am xm r = (rec, Some e')" .
  moreover from import_attributes_error_unchanged[OF e1]
  obtain e2 where "import_attributes f (DbRecord_init t rid) am xm r = (DbRecord_init t rid, Some e2)"
    by blast
  then have "attributes (fst (import_attributes f (DbRecord_init t rid) am xm r)) = py_new"
    by (simp add: DbRecord_init_def)
  ultimately show ?thesis by blast
qed

text \<open>The Person spec on a row without the column \<open>age\<close>.\<close>
theorem import_attributes_atomic_witness:
  "(''age'', ColumnValue ''age'' (Some int_as_str)) \<in> set (attr_map person_spec)
   \<and> provider_read ETL (ColumnValue ''age'' (Some int_as_str)) [(''name'', ''Alice'')]
        [(''existing_records'', Map.empty)] = Inl (KeyError ''age'')
   \<and> (\<exists>e'. import_attributes ETL (DbRecord_init ''Person'' (PyInt 0)) (attr_map person_spec)
              Map.empty [(''name'', ''Alice'')] = (DbRecord_init ''Person'' (PyInt 0), Some e'))
   \<and> attributes (fst (import_attributes ETL (DbRecord_init ''Person'' (PyInt 0)) (attr_map person_spec)
              Map.empty [(''name'', ''Alice'')])) = py_new"
proof -
  have h1: "(''age'', ColumnValue ''age'' (Some int_as_str)) \<in> set (attr_map person_spec)"
    by (simp add: person_spec_def RecordSpec_init_def)
  have h2: "provider_read ETL (ColumnValue ''age'' (Some int_as_str)) [(''name'', ''Alice'')]
        [(''existing_records'', Map.empty)] = Inl (KeyError ''age'')"
    by (simp add: row_get_def)
  from import_attributes_atomic[OF h1 h2, of "DbRecord_init ''Person'' (PyInt 0)" "''Person''" "PyInt 0"]
    h1 h2 show ?thesis by simp
qed

subsection \<open>Condition filtering\<close>

text \<open>
  C3. A spec whose condition is false on a row produces no record for that row and
  no entry of the sibling map: the loop ends in the state, and the materializer with
  the result, of the spec list without that spec; and when no other spec has its key,
  the sibling map of the row has no entry under that key.
\<close>
theorem condition_false_skips:
  assumes "condition spec r = Inr (PyBool False)"
  shows "records_loop f r rid (pre @ (table, instance, spec) # post) records xm =
           records_loop f r rid (pre @ post) records xm
       \<and> records_for_row f (pre @ (table, instance, spec) # post) r rid =
           records_for_row f (pre @ post) r rid
       \<and> (\<forall>records' xm'.
            records_loop f r rid (pre @ (table, instance, spec) # post) [] Map.empty = Inr (records', xm') \<longrightarrow>
            (table, instance) \<notin> spec_key ` set (pre @ post) \<longrightarrow>
            xm' (table, instance) = None)"
proof -
  have step: "records_loop f r rid ((table, instance, spec) # post) recs m =
      records_loop f r rid post recs m" for recs m
    using assms by (simp add: is_False_iff)
  have eq: "records_loop f r rid (pre @ (table, instance, spec) # post) recs m =
      records_loop f r rid (pre @ post) recs m" for recs m
    by (simp only: records_loop_append[of f r rid pre] step)
  have "xm' (table, instance) = None"
    if run: "records_loop f r rid (pre @ (table, instance, spec) # post) [] Map.empty = Inr (records', xm')"
      and fresh: "(table, instance) \<notin> spec_key ` set (pre @ post)"
    for records' xm'
  proof -
    from run eq have "records_loop f r rid (pre @ post) [] Map.empty = Inr (records', xm')"
      by simp
    from records_loop_dom[OF this] fresh have "(table, instance) \<notin> dom xm'"
      by auto
    then show ?thesis by auto
  qed
  with eq show ?thesis
    by (simp add: records_for_row_def)
qed

text \<open>A second Person spec whose condition is false, after the Person of the scenario.\<close>
theorem condition_false_skips_witness:
  "condition never_spec scenario_row = Inr (PyBool False)
   \<and> records_for_row ETL ([(''Person'', ''p1'', person_spec)] @ (''Person'', ''p2'', never_spec) # []) scenario_row (PyInt 0) =
       Inr [person_record]"
proof -
  have h: "condition never_spec scenario_row = Inr (PyBool False)"
    by (simp add: never_spec_def RecordSpec_init_def)
  have "records_for_row ETL ([(''Person'', ''p1'', person_spec)] @ []) scenario_row (PyInt 0) =
       Inr [person_record]"
    using person_loop by (simp add: records_for_row_def del: records_loop.simps)
  with condition_false_skips[OF h, of ETL "PyInt 0" "[(''Person'', ''p1'', person_spec)]" "''Person''" "''p2''" "[]"]
    h show ?thesis by (simp only:)
qed

subsection \<open>Sibling visibility\<close>



subsection \<open>Identity comparison with \<^verbatim>\<open>False\<close>\<close>

text \<open>
  C10. A spec is skipped only when its condition returns the object \<^verbatim>\<open>False\<close>. For
  any other value, such as 0, None or the empty string, the spec is materialized:
  its attributes are imported, and in a row that is materialized to the end its
  record is in the result and in the sibling map under its key.
\<close>
theorem other_condition_values_materialize:
  assumes "condition spec r = Inr c" and "c \<noteq> PyBool False"
  shows "records_loop f r rid ((table, instance, spec) # post) records xm =
           (case import_attributes f (DbRecord_init table rid) (attr_map spec) xm r of
              (rec, exc) \<Rightarrow>
                (case exc of
                   Some e \<Rightarrow> Inl e
                 | None \<Rightarrow> records_loop f r rid post (records @ [rec]) (xm((table, instance) \<mapsto> rec))))
       \<and> (\<forall>records' xm'.
            records_loop f r rid (pre @ (table, instance, spec) # post) [] Map.empty = Inr (records', xm') \<longrightarrow>
            (\<exists>rec. xm' (table, instance) = Some rec \<and> rec \<in> set records' \<and> table_name rec = table))"
proof -
  have "\<exists>rec. xm' (table, instance) = Some rec \<and> rec \<in> set records' \<and> table_name rec = table"
    if run: "records_loop f r rid (pre @ (table, instance, spec) # post) [] Map.empty = Inr (records', xm')"
    for records' xm'
  proof -
    have "materialized r spec"
      using assms by (simp add: materialized_iff)
    then have "(table, instance) \<in> {spec_key x | x. x \<in> set (pre @ (table, instance, spec) # post)
        \<and> materialized r (snd (snd x))}"
      by (auto simp: spec_key_def)
    with records_loop_dom[OF run] have "(table, instance) \<in> dom xm'"
      by (simp only: dom_empty Un_empty_left)
    then obtain rec where rec: "xm' (table, instance) = Some rec"
      by (auto simp: dom_def)
    with records_loop_registered[OF run] show ?thesis by auto
  qed
  then have all: "\<forall>records' xm'.
      records_loop f r rid (pre @ (table, instance, spec) # post) [] Map.empty = Inr (records', xm') \<longrightarrow>
      (\<exists>rec. xm' (table, instance) = Some rec \<and> rec \<in> set records' \<and> table_name rec = table)"
    by blast
  have "records_loop f r rid ((table, instance, spec) # post) records xm =
      (case import_attributes f (DbRecord_init table rid) (attr_map spec) xm r of
         (rec, exc) \<Rightarrow>
           (case exc of
              Some e \<Rightarrow> Inl e
            | None \<Rightarrow> records_loop f r rid post (records @ [rec]) (xm((table, instance) \<mapsto> rec))))"
    using assms by (simp only: records_loop_Cons sum.case if_False)
  with all show ?thesis by (rule conjI[rotated])
qed

text \<open>A spec whose condition returns 0.\<close>
theorem other_condition_values_materialize_witness:
  "condition zero_spec scenario_row = Inr (PyInt 0) \<and> PyInt 0 \<noteq> PyBool False
   \<and> records_loop ETL scenario_row (PyInt 0) ((''Person'', ''p2'', zero_spec) # []) [] Map.empty =
       Inr ([second_person_record], [(''Person'', ''p2'') \<mapsto> second_person_record])"
proof -
  have h1: "condition zero_spec scenario_row = Inr (PyInt 0)"
    by (simp add: zero_spec_def RecordSpec_init_def)
  have h2: "PyInt 0 \<noteq> PyBool False" by simp
  note i = second_person_import[of ETL Map.empty]
  from other_condition_values_materialize[OF h1 h2, of ETL "PyInt 0" "''Person''" "''p2''" "[]" "[]" Map.empty]
    h1 h2 show ?thesis
    by (simp only: i prod.case option.case records_loop.simps(1) append_Nil simp_thms)
qed

section \<open>Properties of the record serializer\<close>

subsection \<open>What \<^verbatim>\<open>string_exp\<close> matches\<close>
lemma lower_ascii_letter:
  "lower_ascii c \<in> set ''abcdefghijklmnopqrstuvwxyz'' \<longleftrightarrow> ascii_letter c"
  unfolding lower_ascii_def ascii_letter_def
  by (simp split: option.splits)

lemma fold_case_True: "fold_case True = lower_ascii"
  by (rule ext) (simp add: fold_case_def)

lemma singleton_if_nonempty: "((if P then [x] else []) \<noteq> []) = P"
  by simp

lemma map_lower_lowercase:
  "map lower_ascii ''abcdefghijklmnopqrstuvwxyz'' = ''abcdefghijklmnopqrstuvwxyz''"
  by (simp add: lower_ascii_def)

lemma rx_match_alternatives:
  "rx_match ic (alternatives a bs) v = [] \<longleftrightarrow>
   rx_match ic a v = [] \<and> (\<forall>b \<in> set bs. rx_match ic b v = [])"
  by (induction bs arbitrary: a) auto

lemma rx_match_quote:
  "rx_match True (AnyOf [CHR 0x22, CHR 0x27]) v = [] \<longleftrightarrow> \<not> starts_with_quote v"
  by (cases v) (auto simp: starts_with_quote_def fold_case_True lower_ascii_def)

lemma rx_match_Lit:
  "rx_match True (Lit tok) v = [] \<longleftrightarrow> \<not> starts_with_ignorecase tok v"
  by (simp add: starts_with_ignorecase_def fold_case_True)

lemma rx_match_lookahead:
  "rx_match True (NegLookahead (alternatives (AnyOf [CHR 0x22, CHR 0x27]) (map Lit sql_fun))) v =
     (if \<not> starts_with_quote v \<and> \<not> (\<exists>tok \<in> set sql_fun. starts_with_ignorecase tok v)
      then [v] else [])"
  unfolding rx_match.simps(4) rx_match_alternatives rx_match_quote
  by (simp add: rx_match_Lit del: rx_match.simps)

lemma dot_star_letter:
  "concat (map (rx_match True (AnyOf ''abcdefghijklmnopqrstuvwxyz'')) (dot_star v)) \<noteq> [] \<longleftrightarrow>
   (\<exists>c \<in> set (first_line v). ascii_letter c)"
proof (induction v)
  case Nil
  show ?case by (simp add: first_line_def)
next
  case (Cons c v)
  have one: "rx_match True (AnyOf ''abcdefghijklmnopqrstuvwxyz'') (c # v) \<noteq> [] \<longleftrightarrow> ascii_letter c"
    unfolding rx_match.simps list.case fold_case_True map_lower_lowercase singleton_if_nonempty
      lower_ascii_letter ..
  have nl: "\<not> ascii_letter (CHR 0x0A)"
    by (simp add: ascii_letter_def)
  show ?case
  proof (cases "c = CHR 0x0A")
    case True
    with one nl show ?thesis
      by (simp add: first_line_def del: rx_match.simps)
  next
    case False
    with one Cons.IH show ?thesis
      by (simp add: first_line_def del: rx_match.simps)
  qed
qed

lemma string_exp_match_iff:
  "string_exp_match v \<longleftrightarrow>
     \<not> starts_with_quote v \<and> \<not> (\<exists>tok \<in> set sql_fun. starts_with_ignorecase tok v)
     \<and> (\<exists>c \<in> set (first_line v). ascii_letter c)"
proof -
  have "rx_match True string_exp v =
      concat (map (\<lambda>w. concat (map (rx_match True (AnyOf ''abcdefghijklmnopqrstuvwxyz'')) (dot_star w)))
        (if \<not> starts_with_quote v \<and> \<not> (\<exists>tok \<in> set sql_fun. starts_with_ignorecase tok v)
         then [v] else []))"
    unfolding string_exp_def rx_match.simps(6) rx_match_lookahead rx_match.simps(5) ..
  then show ?thesis
    using dot_star_letter[of v]
    by (simp add: string_exp_match_def re_match_def del: rx_match.simps)
qed

subsection \<open>The statement of a record of strings\<close>
lemma sanity_checks_strings:
  "sanity_checks table (map (\<lambda>(k, s). (k, PyStr s)) kvs) printed err =
     (printed @ map (\<lambda>(k, s). UnquotedWarning s k table) (filter (\<lambda>(k, s). string_exp_match s) kvs), err)"
proof (induction kvs arbitrary: printed)
  case Nil
  show ?case by simp
next
  case (Cons a kvs)
  obtain k s where a: "a = (k, s)" by (cases a)
  show ?case by (simp add: a Cons.IH)
qed

lemma str_values_strings:
  "str_values (map snd (map (\<lambda>(k, s). (k, PyStr s)) kvs)) = Inr (map snd kvs)"
  by (induction kvs) (auto simp: case_prod_beta)

lemma keys_strings: "map fst (map (\<lambda>(k, s). (k, PyStr s)) kvs) = map fst kvs"
  by (induction kvs) (auto simp: case_prod_beta)

lemma insert_statement_strings:
  assumes "py_items (attributes rec) = map (\<lambda>(k, s). (k, PyStr s)) kvs"
  shows "insert_statement rec =
     Inr (map (\<lambda>(k, s). UnquotedWarning s k (table_name rec)) (filter (\<lambda>(k, s). string_exp_match s) kvs),
          ''INSERT INTO '' @ table_name rec @ '' ('' @ join '', '' (map fst kvs) @ '') VALUES ('' @
          join '', '' (map snd kvs) @ '');'' @ [CHR 0x0A])"
  unfolding insert_statement_def assms sanity_checks_strings str_values_strings keys_strings
  by simp

subsection \<open>The order of the attributes\<close>

lemma join_comma_separated: "join '', '' xs = comma_separated xs"
  by (induction "'', ''" xs rule: join.induct) simp_all

lemma person_record_attributes:
  "py_items (attributes person_record) = map (\<lambda>(k, s). (k, PyStr s)) person_attributes"
  by (simp add: person_record_def person_attributes_def py_items_def List.map_filter_simps)

text \<open>
  The layout of the Person record does not depend on the width of the hash, nor on the
  order in which the attribute map is iterated; \<open>person_spec_iterated\<close> has the order
  in which Python 2 iterates the dict display of the scenario.
\<close>

lemma person_slots:
  "map (\<lambda>key. nat (string_hash 64 key mod 8)) [''id'', ''name'', ''age''] = [5, 5, 2]
   \<and> map (\<lambda>key. nat (string_hash 32 key mod 8)) [''id'', ''name'', ''age''] = [5, 5, 2]"
  by code_simp

lemma person_display:
  "map_option (\<lambda>table. map fst (py_items table))
     (py_display long_bits [(''id'', ()), (''name'', ()), (''age'', ())]) =
   Some (map fst (attr_map person_spec_iterated))"
  by code_simp

lemma person_statement:
  "insert_statement person_record =
     Inr ([UnquotedWarning ''Alice'' ''name'' ''Person''],
          ''INSERT INTO Person (age, id, name) VALUES (30, 1, Alice);'' @ [CHR 0x0A])"
  by code_simp

text \<open>
  C7, as the code has it. For a record all of whose attribute values are strings,
  \<^verbatim>\<open>insert_statement\<close> returns \<open>INSERT INTO <table> (<attr1>, <attr2>, ...) VALUES
  (<val1>, <val2>, ...);\<close> and a newline, with the names and the values in the order in
  which the dict of the attributes is iterated. In Python 2, which the program needs,
  that is the order of the slots of the hash table: the Person spec of the scenario
  on the row \<open>{name: "Alice", age: "30"}\<close> gives the record whose attributes are
  iterated as \<open>age, id, name\<close>, and it is serialized as
  \<open>INSERT INTO Person (age, id, name) VALUES (30, 1, Alice);\<close> and a newline.
\<close>
theorem insert_statement_format:
  "(py_items (attributes rec) = map (\<lambda>(k, s). (k, PyStr s)) kvs \<longrightarrow>
      (\<exists>printed. insert_statement rec =
         Inr (printed, ''INSERT INTO '' @ table_name rec @ '' ('' @ comma_separated (map fst kvs) @
                       '') VALUES ('' @ comma_separated (map snd kvs) @ '');'' @ [CHR 0x0A])))
   \<and> import_attributes f (DbRecord_init ''Person'' (PyInt 0)) (attr_map person_spec) xm scenario_row =
        (person_record, None)
   \<and> import_attributes f (DbRecord_init ''Person'' (PyInt 0)) (attr_map person_spec_iterated) xm
        scenario_row = (person_record, None)
   \<and> py_items (attributes person_record) =
        [(''age'', PyStr ''30''), (''id'', PyStr ''1''), (''name'', PyStr ''Alice'')]
   \<and> (\<exists>printed. insert_statement person_record =
        Inr (printed, ''INSERT INTO Person (age, id, name) VALUES (30, 1, Alice);'' @ [CHR 0x0A]))"
proof -
  have "\<exists>printed. insert_statement rec =
         Inr (printed, ''INSERT INTO '' @ table_name rec @ '' ('' @ comma_separated (map fst kvs) @
                       '') VALUES ('' @ comma_separated (map snd kvs) @ '');'' @ [CHR 0x0A])"
    if "py_items (attributes rec) = map (\<lambda>(k, s). (k, PyStr s)) kvs"
    using insert_statement_strings[OF that]
    by (simp only: join_comma_separated) blast
  moreover have "py_items (attributes person_record) =
      [(''age'', PyStr ''30''), (''id'', PyStr ''1''), (''name'', PyStr ''Alice'')]"
    by (simp add: person_record_attributes person_attributes_def)
  moreover have "\<exists>printed. insert_statement person_record =
      Inr (printed, ''INSERT INTO Person (age, id, name) VALUES (30, 1, Alice);'' @ [CHR 0x0A])"
    using person_statement by blast
  ultimately show ?thesis
    using person_import[of f xm] person_iterated_import[of f xm] by blast
qed

text \<open>The Person record of the scenario.\<close>
theorem insert_statement_format_witness:
  "py_items (attributes person_record) = map (\<lambda>(k, s). (k, PyStr s)) person_attributes
   \<and> (\<exists>printed. insert_statement person_record =
         Inr (printed, ''INSERT INTO '' @ table_name person_record @ '' ('' @
                       comma_separated (map fst person_attributes) @
                       '') VALUES ('' @ comma_separated (map snd person_attributes) @ '');'' @ [CHR 0x0A]))"
  using insert_statement_format[of person_record person_attributes ETL Map.empty]
    person_record_attributes
  by blast

text \<open>
  C7 as stated has the attributes in the order of their insertion, and
  \<open>INSERT INTO Person (id, name, age) VALUES (1, Alice, 30);\<close> for the scenario. The
  record of the scenario is serialized with \<open>age\<close> first, whether its attribute map is
  iterated as it is written or as Python 2 iterates it.
\<close>
theorem person_statement_order:
  "import_attributes ETL (DbRecord_init ''Person'' (PyInt 0)) (attr_map person_spec) Map.empty
     scenario_row = (person_record, None)
   \<and> import_attributes ETL (DbRecord_init ''Person'' (PyInt 0)) (attr_map person_spec_iterated) Map.empty
     scenario_row = (person_record, None)
   \<and> map fst (attr_map person_spec) = [''id'', ''name'', ''age'']
   \<and> map fst (py_items (attributes person_record)) = [''age'', ''id'', ''name'']
   \<and> insert_statement person_record =
       Inr ([UnquotedWarning ''Alice'' ''name'' ''Person''],
            ''INSERT INTO Person (age, id, name) VALUES (30, 1, Alice);'' @ [CHR 0x0A])
   \<and> insert_statement person_record \<noteq>
       Inr ([UnquotedWarning ''Alice'' ''name'' ''Person''],
            ''INSERT INTO Person (id, name, age) VALUES (1, Alice, 30);'' @ [CHR 0x0A])"
proof -
  have "map fst (attr_map person_spec) = [''id'', ''name'', ''age'']"
    by (simp add: person_spec_def RecordSpec_init_def)
  moreover have "map fst (py_items (attributes person_record)) = [''age'', ''id'', ''name'']"
    by (simp add: person_record_attributes person_attributes_def)
  moreover have "insert_statement person_record \<noteq>
       Inr ([UnquotedWarning ''Alice'' ''name'' ''Person''],
            ''INSERT INTO Person (id, name, age) VALUES (1, Alice, 30);'' @ [CHR 0x0A])"
    by (simp add: person_statement)
  ultimately show ?thesis
    using person_import[of ETL Map.empty] person_iterated_import[of ETL Map.empty] person_statement
    by (simp only: simp_thms)
qed

text \<open>
  C8, as the code has it. A string value is flagged exactly when it does not start
  with a quote character, does not start with a token of the allow-list compared
  without regard to case, and has an ASCII letter of either case before its first
  newline. The warning is not fatal: for a record of strings the statement is
  produced, and what is printed is one warning for each flagged value.
\<close>
theorem unquoted_text_warning:
  "(string_exp_match v \<longleftrightarrow>
      \<not> starts_with_quote v \<and> \<not> (\<exists>tok \<in> set sql_fun. starts_with_ignorecase tok v)
      \<and> (\<exists>c \<in> set (first_line v). ascii_letter c))
   \<and> (py_items (attributes rec) = map (\<lambda>(k, s). (k, PyStr s)) kvs \<longrightarrow>
        (\<exists>sql. insert_statement rec =
           Inr (map (\<lambda>(k, s). UnquotedWarning s k (table_name rec))
                  (filter (\<lambda>(k, s). string_exp_match s) kvs), sql)))"
  using string_exp_match_iff[of v] insert_statement_strings[of rec kvs] by blast

text \<open>The value \<open>Alice\<close> of the Person record is flagged, and it alone.\<close>
lemma Alice_flagged:
  "\<not> starts_with_quote ''Alice'' \<and> \<not> (\<exists>tok \<in> set sql_fun. starts_with_ignorecase tok ''Alice'')
   \<and> (\<exists>c \<in> set (first_line ''Alice''). ascii_letter c)"
  by (simp add: starts_with_quote_def sql_fun_def starts_with_ignorecase_def first_line_def
      ascii_letter_def lower_ascii_def)

lemma person_flags:
  "filter (\<lambda>(k, s). string_exp_match s) person_attributes = [(''name'', ''Alice'')]"
  by (simp add: person_attributes_def string_exp_match_iff starts_with_quote_def sql_fun_def
      starts_with_ignorecase_def first_line_def ascii_letter_def lower_ascii_def)

theorem unquoted_text_warning_witness:
  "string_exp_match ''Alice''
   \<and> py_items (attributes person_record) = map (\<lambda>(k, s). (k, PyStr s)) person_attributes
   \<and> (\<exists>sql. insert_statement person_record = Inr ([UnquotedWarning ''Alice'' ''name'' ''Person''], sql))"
proof -
  from unquoted_text_warning[of "''Alice''" person_record person_attributes]
    Alice_flagged person_record_attributes
  have "string_exp_match ''Alice''"
    and "\<exists>sql. insert_statement person_record =
           Inr (map (\<lambda>(k, s). UnquotedWarning s k (table_name person_record))
                  (filter (\<lambda>(k, s). string_exp_match s) person_attributes), sql)"
    by blast+
  then show ?thesis
    using person_record_attributes by (simp add: person_flags person_record_def)
qed

text \<open>
  C8 as stated asks for a lowercase letter. \<^verbatim>\<open>re.IGNORECASE\<close> applies to the class
  \<^verbatim>\<open>[a-z]\<close> as well: the value \<open>NULL\<close> has no lowercase letter and is flagged.
\<close>
theorem uppercase_value_flagged:
  "string_exp_match ''NULL'' \<and> \<not> flagged_as_specified ''NULL''"
  by (simp add: string_exp_match_iff flagged_as_specified_def starts_with_quote_def sql_fun_def
      starts_with_ignorecase_def first_line_def ascii_letter_def lowercase_letter_def lower_ascii_def)

section \<open>Properties of the dependency resolver\<close>

subsection \<open>One round of the loop\<close>

lemma toposort_loop_unfold:
  "toposort_loop data =
     (if ready data = {} then (if data = [] then Inr [] else Inl (AssertionError data))
      else (case toposort_loop (remaining data) of
              Inl e \<Rightarrow> Inl e
            | Inr layers \<Rightarrow> Inr (ready data # layers)))"
  unfolding ready_def remaining_def
  by (subst toposort_loop.simps) (simp only: Let_def)

lemma toposort_loop_induct [case_names round]:
  fixes data :: dependency_map
  assumes "\<And>data :: dependency_map. (ready data \<noteq> {} \<Longrightarrow> P (remaining data)) \<Longrightarrow> P data"
  shows "P data"
proof (induction data rule: toposort_loop.induct)
  case (1 data)
  show ?case
  proof (rule assms)
    assume "ready data \<noteq> {}"
    then show "P (remaining data)"
      unfolding ready_def remaining_def by (rule "1.IH"[OF refl])
  qed
qed

lemma ready_subset: "ready data \<subseteq> fst ` set data"
  by (auto simp: ready_def)

lemma ready_iff: "k \<in> ready data \<longleftrightarrow> (k, {}) \<in> set data"
  by (force simp: ready_def)

lemma ready_no_deps:
  "distinct (map fst data) \<Longrightarrow> (k, dep) \<in> set data \<Longrightarrow> k \<in> ready data \<Longrightarrow> dep = {}"
  by (auto simp: ready_iff dest: eq_key_imp_eq_value)

lemma strip_keys:
  "map fst (map (\<lambda>(item, dep). (item, dep - R)) (filter (\<lambda>(item, dep). item \<notin> R) data)) =
   filter (\<lambda>k. k \<notin> R) (map fst data)"
  by (induction data) auto

lemma remaining_map_fst: "map fst (remaining data) = filter (\<lambda>k. k \<notin> ready data) (map fst data)"
  unfolding remaining_def by (rule strip_keys)

lemma remaining_keys: "fst ` set (remaining data) = fst ` set data - ready data"
proof -
  have "fst ` set (remaining data) = set (map fst (remaining data))" by simp
  also have "\<dots> = set (map fst data) - ready data"
    unfolding remaining_map_fst by auto
  finally show ?thesis by simp
qed

lemma remaining_entry:
  "(k, dep') \<in> set (remaining data) \<longleftrightarrow>
   (\<exists>dep. (k, dep) \<in> set data \<and> k \<notin> ready data \<and> dep' = dep - ready data)"
  by (auto simp: remaining_def)

lemma remaining_distinct: "distinct (map fst data) \<Longrightarrow> distinct (map fst (remaining data))"
  by (simp add: remaining_map_fst)

lemma remaining_closed:
  assumes "closed data"
  shows "closed (remaining data)"
  unfolding closed_def
proof (rule ballI, rule prod.case_eq_if[THEN iffD2])
  fix x assume x: "x \<in> set (remaining data)"
  then have "(fst x, snd x) \<in> set (remaining data)" by simp
  then obtain dep where dep: "(fst x, dep) \<in> set data" "snd x = dep - ready data"
    unfolding remaining_entry by blast
  from assms dep(1) have "dep \<subseteq> fst ` set data"
    unfolding closed_def by blast
  with dep(2) show "snd x \<subseteq> fst ` set (remaining data)"
    unfolding remaining_keys by blast
qed

lemma dep_rel_iff: "(k, d) \<in> dep_rel data \<longleftrightarrow> (\<exists>dep. (k, dep) \<in> set data \<and> d \<in> dep)"
  by (auto simp: dep_rel_def)

lemma dep_rel_remaining_iff:
  assumes "distinct (map fst data)"
  shows "(k, d) \<in> dep_rel (remaining data) \<longleftrightarrow> (k, d) \<in> dep_rel data \<and> d \<notin> ready data"
proof
  assume "(k, d) \<in> dep_rel (remaining data)"
  then show "(k, d) \<in> dep_rel data \<and> d \<notin> ready data"
    unfolding dep_rel_iff remaining_entry by blast
next
  assume a: "(k, d) \<in> dep_rel data \<and> d \<notin> ready data"
  then obtain dep where dep: "(k, dep) \<in> set data" "d \<in> dep"
    unfolding dep_rel_iff by blast
  with ready_no_deps[OF assms dep(1)] have "k \<notin> ready data" by blast
  with dep a show "(k, d) \<in> dep_rel (remaining data)"
    unfolding dep_rel_iff remaining_entry by blast
qed

lemma remaining_dep_rel: "dep_rel (remaining data) \<subseteq> dep_rel data"
proof
  fix x assume "x \<in> dep_rel (remaining data)"
  then have "(fst x, snd x) \<in> dep_rel (remaining data)" by simp
  then have "(fst x, snd x) \<in> dep_rel data"
    unfolding dep_rel_iff remaining_entry by blast
  then show "x \<in> dep_rel data" by simp
qed

subsection \<open>The order of the result\<close>

lemma precedes_append_left:
  "b \<in> set xs \<Longrightarrow> a \<in> set ys \<Longrightarrow> precedes b a (xs @ ys)"
proof -
  assume b: "b \<in> set xs" and a: "a \<in> set ys"
  from b have dw: "dropWhile (\<lambda>x. x \<noteq> b) (xs @ ys) = dropWhile (\<lambda>x. x \<noteq> b) xs @ ys"
    by (intro dropWhile_append1[of b]) auto
  from b have "dropWhile (\<lambda>x. x \<noteq> b) xs \<noteq> []"
    by (auto simp: dropWhile_eq_Nil_conv)
  then obtain z zs where "dropWhile (\<lambda>x. x \<noteq> b) xs = z # zs"
    by (cases "dropWhile (\<lambda>x. x \<noteq> b) xs") auto
  with dw a show ?thesis by (simp add: precedes_def)
qed

lemma precedes_append_right:
  "b \<notin> set xs \<Longrightarrow> precedes b a ys \<Longrightarrow> precedes b a (xs @ ys)"
proof -
  assume b: "b \<notin> set xs" and p: "precedes b a ys"
  from b have "dropWhile (\<lambda>x. x \<noteq> b) (xs @ ys) = dropWhile (\<lambda>x. x \<noteq> b) ys"
    by (intro dropWhile_append2) auto
  with p show ?thesis by (simp add: precedes_def)
qed

lemma precedes_split:
  assumes "precedes b a ks"
  shows "\<exists>xs ys zs. ks = xs @ b # ys @ a # zs"
proof -
  let ?d = "dropWhile (\<lambda>x. x \<noteq> b) ks"
  have tl: "drop 1 ?d = tl ?d" by (simp add: drop_Suc)
  from assms have a: "a \<in> set (tl ?d)" by (simp only: precedes_def tl)
  have ne: "?d \<noteq> []"
  proof
    assume "?d = []"
    with a show False by (simp only: list.sel list.set empty_iff)
  qed
  from hd_dropWhile[OF ne] have "hd ?d = b" by simp
  with ne have d: "?d = b # tl ?d" by (cases ?d) auto
  from a obtain ys zs where "tl ?d = ys @ a # zs" by (auto simp: in_set_conv_decomp)
  with d have "?d = b # ys @ a # zs" by simp
  with takeWhile_dropWhile_id[of "\<lambda>x. x \<noteq> b" ks]
  have "ks = takeWhile (\<lambda>x. x \<noteq> b) ks @ b # ys @ a # zs" by simp
  then show ?thesis by blast
qed

lemma toposort_loop_sound:
  assumes "toposort_loop data = Inr layers"
    and "distinct (map fst data)"
    and "iteration_order iter"
  shows "distinct (concat (map iter layers))
       \<and> set (concat (map iter layers)) = fst ` set data
       \<and> (\<forall>(k, d) \<in> dep_rel data. precedes d k (concat (map iter layers)))"
  using assms(1,2)
proof (induction data arbitrary: layers rule: toposort_loop_induct)
  case (round data)
  show ?case
  proof (cases "ready data = {}")
    case True
    with round.prems(1) have "data = []" "layers = []"
      by (auto simp: toposort_loop_unfold[of data] split: if_splits)
    then show ?thesis by (simp add: dep_rel_def)
  next
    case False
    with round.prems(1) obtain rest where rest: "toposort_loop (remaining data) = Inr rest"
      and layers: "layers = ready data # rest"
      by (auto simp: toposort_loop_unfold[of data] split: sum.splits)
    from round.IH[OF False rest remaining_distinct[OF round.prems(2)]]
    have d: "distinct (concat (map iter rest))"
      and s: "set (concat (map iter rest)) = fst ` set data - ready data"
      and p: "\<forall>(k, d) \<in> dep_rel (remaining data). precedes d k (concat (map iter rest))"
      by (simp_all add: remaining_keys)
    have "finite (ready data)" by (simp add: ready_def)
    with assms(3) have it: "set (iter (ready data)) = ready data" "distinct (iter (ready data))"
      by (auto simp: iteration_order_def)
    have "distinct (concat (map iter layers))"
      using d s it by (auto simp: layers)
    moreover have "set (concat (map iter layers)) = fst ` set data"
      using s it ready_subset[of data] by (auto simp: layers)
    moreover have "precedes d k (concat (map iter layers))" if kd: "(k, d) \<in> dep_rel data" for k d
    proof -
      from kd obtain dep where dep: "(k, dep) \<in> set data" "d \<in> dep"
        by (auto simp: dep_rel_iff)
      with ready_no_deps[OF round.prems(2) dep(1)] have k: "k \<notin> ready data" by auto
      show ?thesis
      proof (cases "d \<in> ready data")
        case True
        from dep(1) k have "k \<in> fst ` set data - ready data" by force
        with s True it show ?thesis
          by (simp add: layers precedes_append_left)
      next
        case False
        with kd have "(k, d) \<in> dep_rel (remaining data)"
          by (simp add: dep_rel_remaining_iff[OF round.prems(2)])
        with p have "precedes d k (concat (map iter rest))" by auto
        with False it show ?thesis
          by (simp add: layers precedes_append_right)
      qed
    qed
    ultimately show ?thesis by auto
  qed
qed

lemma closed_dep: "closed data \<Longrightarrow> (k, dep) \<in> set data \<Longrightarrow> d \<in> dep \<Longrightarrow> d \<in> fst ` set data"
  unfolding closed_def by blast

lemma dep_rel_closed:
  assumes "closed data"
  shows "dep_rel data \<subseteq> fst ` set data \<times> fst ` set data"
proof
  fix x assume "x \<in> dep_rel data"
  then have "(fst x, snd x) \<in> dep_rel data" by simp
  then obtain dep where dep: "(fst x, dep) \<in> set data" "snd x \<in> dep"
    unfolding dep_rel_iff by blast
  from dep(1) have "fst x \<in> fst ` set data" by (rule image_eqI[rotated]) simp
  moreover from closed_dep[OF assms dep] have "snd x \<in> fst ` set data" .
  ultimately show "x \<in> fst ` set data \<times> fst ` set data"
    by (simp add: mem_Times_iff)
qed

lemma stuck_is_empty:
  assumes acyc: "acyclic (dep_rel data)" and cl: "closed data" and stuck: "ready data = {}"
  shows "data = []"
proof (rule ccontr)
  assume ne: "data \<noteq> []"
  have "finite (dep_rel data)"
    by (rule finite_subset[OF dep_rel_closed[OF cl]]) simp
  from finite_acyclic_wf_converse[OF this acyc]
  have wf: "wf ((dep_rel data)\<inverse>)" .
  from ne have "hd data \<in> set data" by simp
  then have x: "fst (hd data) \<in> fst ` set data" by (rule imageI)
  from wfE_min[OF wf x] obtain z where z: "z \<in> fst ` set data"
    and min: "\<And>y. (y, z) \<in> (dep_rel data)\<inverse> \<Longrightarrow> y \<notin> fst ` set data"
    by blast
  from z obtain e where e: "e \<in> set data" "z = fst e" by blast
  then have dep: "(z, snd e) \<in> set data" by simp
  have "snd e \<noteq> {}"
  proof
    assume "snd e = {}"
    with dep have "z \<in> ready data" unfolding ready_iff by simp
    with stuck show False by simp
  qed
  then obtain y where y: "y \<in> snd e" by blast
  with dep have "(z, y) \<in> dep_rel data" unfolding dep_rel_iff by blast
  then have "(y, z) \<in> (dep_rel data)\<inverse>" by simp
  from min[OF this] closed_dep[OF cl dep y] show False by simp
qed

lemma toposort_loop_complete:
  assumes "acyclic (dep_rel data)" and "closed data"
  shows "\<exists>layers. toposort_loop data = Inr layers"
  using assms
proof (induction data rule: toposort_loop_induct)
  case (round data)
  show ?case
  proof (cases "ready data = {}")
    case True
    from stuck_is_empty[OF round.prems True] have "data = []" .
    with True have "toposort_loop data = Inr []"
      by (subst toposort_loop_unfold) simp
    then show ?thesis by blast
  next
    case False
    have "acyclic (dep_rel (remaining data))"
      using round.prems(1) remaining_dep_rel by (rule acyclic_subset)
    from round.IH[OF False this remaining_closed[OF round.prems(2)]]
    obtain rest where "toposort_loop (remaining data) = Inr rest" by blast
    with False have "toposort_loop data = Inr (ready data # rest)"
      by (subst toposort_loop_unfold) simp
    then show ?thesis by blast
  qed
qed

lemma toposort_loop_ranked:
  assumes "toposort_loop data = Inr layers" and "distinct (map fst data)"
  shows "\<exists>rank :: path \<Rightarrow> nat. \<forall>(k, d) \<in> dep_rel data. rank d < rank k"
  using assms
proof (induction data arbitrary: layers rule: toposort_loop_induct)
  case (round data)
  show ?case
  proof (cases "ready data = {}")
    case True
    with round.prems(1) have "data = []"
      by (auto simp: toposort_loop_unfold[of data] split: if_splits)
    then show ?thesis by (simp add: dep_rel_def)
  next
    case False
    with round.prems(1) obtain rest where rest: "toposort_loop (remaining data) = Inr rest"
      by (auto simp: toposort_loop_unfold[of data] split: sum.splits)
    from round.IH[OF False rest remaining_distinct[OF round.prems(2)]]
    obtain rank :: "path \<Rightarrow> nat" where
      rank: "\<forall>(k, d) \<in> dep_rel (remaining data). rank d < rank k" by blast
    let ?rank = "\<lambda>k. if k \<in> ready data then 0 else Suc (rank k)"
    have "?rank d < ?rank k" if kd: "(k, d) \<in> dep_rel data" for k d
    proof -
      from kd obtain dep where dep: "(k, dep) \<in> set data" "d \<in> dep"
        by (auto simp: dep_rel_iff)
      with ready_no_deps[OF round.prems(2) dep(1)] have k: "k \<notin> ready data" by auto
      show ?thesis
      proof (cases "d \<in> ready data")
        case True
        with k show ?thesis by simp
      next
        case False
        with kd have "(k, d) \<in> dep_rel (remaining data)"
          by (simp add: dep_rel_remaining_iff[OF round.prems(2)])
        with rank k False show ?thesis by auto
      qed
    qed
    then have "\<forall>(k, d) \<in> dep_rel data. ?rank d < ?rank k" by blast
    then show ?thesis by (rule exI[of _ ?rank])
  qed
qed

lemma toposort_loop_acyclic:
  assumes "toposort_loop data = Inr layers" and "distinct (map fst data)"
  shows "acyclic (dep_rel data)"
proof -
  from toposort_loop_ranked[OF assms] obtain rank :: "path \<Rightarrow> nat" where
    rank: "\<forall>(k, d) \<in> dep_rel data. rank d < rank k" by blast
  then have "(dep_rel data)\<inverse> \<subseteq> measure rank" by auto
  then have "wf ((dep_rel data)\<inverse>)" by (rule wf_subset[OF wf_measure])
  then have "acyclic ((dep_rel data)\<inverse>)" by (rule wf_acyclic)
  then show ?thesis by simp
qed

lemma dep_rel_source: "(k, z) \<in> dep_rel data \<Longrightarrow> k \<in> fst ` set data"
proof -
  assume "(k, z) \<in> dep_rel data"
  then obtain dep where "(k, dep) \<in> set data" unfolding dep_rel_iff by blast
  then show ?thesis by (rule image_eqI[rotated]) simp
qed

lemma dep_rel_source_not_ready:
  assumes "distinct (map fst data)" and "(k, z) \<in> dep_rel data"
  shows "k \<notin> ready data"
proof
  assume r: "k \<in> ready data"
  from assms(2) obtain dep where dep: "(k, dep) \<in> set data" "z \<in> dep"
    unfolding dep_rel_iff by blast
  from ready_no_deps[OF assms(1) dep(1) r] dep(2) show False by simp
qed

lemma cycle_survives_round:
  assumes d: "distinct (map fst data)"
    and "(a, b) \<in> (dep_rel data)\<^sup>+" and "b \<notin> ready data"
  shows "(a, b) \<in> (dep_rel (remaining data))\<^sup>+"
  using assms(2,3)
proof (induction rule: trancl_induct)
  case (base y)
  then have "(a, y) \<in> dep_rel (remaining data)"
    unfolding dep_rel_remaining_iff[OF d] by simp
  then show ?case by (rule r_into_trancl)
next
  case (step y z)
  from dep_rel_source_not_ready[OF d step.hyps(2)] have "y \<notin> ready data" .
  from step.IH[OF this] have "(a, y) \<in> (dep_rel (remaining data))\<^sup>+" .
  moreover from step.hyps(2) step.prems have "(y, z) \<in> dep_rel (remaining data)"
    unfolding dep_rel_remaining_iff[OF d] by simp
  ultimately show ?case by (rule trancl_into_trancl)
qed

lemma stuck_remainder_self:
  assumes "closed data" and "ready data = {}" and "data \<noteq> []"
  shows "stuck_remainder data data"
proof -
  have "dep \<noteq> {} \<and> dep \<subseteq> fst ` set data" if "(k, dep) \<in> set data" for k dep
  proof
    show "dep \<noteq> {}"
    proof
      assume "dep = {}"
      with that have "k \<in> ready data" unfolding ready_iff by simp
      with assms(2) show False by simp
    qed
    from assms(1) that show "dep \<subseteq> fst ` set data" unfolding closed_def by blast
  qed
  then have "\<forall>(k, dep) \<in> set data. dep \<noteq> {} \<and> dep \<subseteq> fst ` set data" by blast
  moreover have "\<forall>k. (k, k) \<in> (dep_rel data)\<^sup>+ \<longrightarrow> k \<in> fst ` set data"
  proof (intro allI impI)
    fix k assume "(k, k) \<in> (dep_rel data)\<^sup>+"
    from tranclD[OF this] obtain z where "(k, z) \<in> dep_rel data" by blast
    then show "k \<in> fst ` set data" by (rule dep_rel_source)
  qed
  ultimately show ?thesis using assms(3) unfolding stuck_remainder_def by blast
qed

lemma stuck_remainder_round:
  assumes d: "distinct (map fst data)" and s: "stuck_remainder (remaining data) rem"
  shows "stuck_remainder data rem"
proof -
  from s have ne: "rem \<noteq> []"
    and keys: "fst ` set rem \<subseteq> fst ` set (remaining data)"
    and deps: "\<forall>(k, dep) \<in> set rem. dep \<noteq> {} \<and> dep \<subseteq> fst ` set rem"
    and rel: "dep_rel rem \<subseteq> dep_rel (remaining data)"
    and cyc: "\<forall>k. (k, k) \<in> (dep_rel (remaining data))\<^sup>+ \<longrightarrow> k \<in> fst ` set rem"
    unfolding stuck_remainder_def by blast+
  from keys have k': "fst ` set rem \<subseteq> fst ` set data"
    unfolding remaining_keys by blast
  from rel remaining_dep_rel[of data] have r': "dep_rel rem \<subseteq> dep_rel data" by blast
  have c': "\<forall>k. (k, k) \<in> (dep_rel data)\<^sup>+ \<longrightarrow> k \<in> fst ` set rem"
  proof (intro allI impI)
    fix k assume kk: "(k, k) \<in> (dep_rel data)\<^sup>+"
    from tranclD[OF kk] obtain z where "(k, z) \<in> dep_rel data" by blast
    from dep_rel_source_not_ready[OF d this] have "k \<notin> ready data" .
    from cycle_survives_round[OF d kk this] cyc show "k \<in> fst ` set rem" by blast
  qed
  from ne k' deps r' c' show ?thesis unfolding stuck_remainder_def by blast
qed

lemma toposort_loop_failure:
  assumes "toposort_loop data = Inl e" and "closed data" and "distinct (map fst data)"
  shows "\<exists>rem. e = AssertionError rem \<and> stuck_remainder data rem"
  using assms
proof (induction data rule: toposort_loop_induct)
  case (round data)
  show ?case
  proof (cases "ready data = {}")
    case True
    have ne: "data \<noteq> []"
    proof
      assume "data = []"
      then have "toposort_loop data = Inr []" by (subst toposort_loop_unfold) (simp add: ready_def)
      with round.prems(1) show False by simp
    qed
    with True have "toposort_loop data = Inl (AssertionError data)"
      by (subst toposort_loop_unfold) simp
    with round.prems(1) have "e = AssertionError data" by simp
    with stuck_remainder_self[OF round.prems(2) True ne] show ?thesis by blast
  next
    case False
    have "toposort_loop (remaining data) = Inl e"
    proof (cases "toposort_loop (remaining data)")
      case (Inl e')
      with False have "toposort_loop data = Inl e'" by (subst toposort_loop_unfold) simp
      with round.prems(1) Inl show ?thesis by simp
    next
      case (Inr rest)
      with False have "toposort_loop data = Inr (ready data # rest)"
        by (subst toposort_loop_unfold) simp
      with round.prems(1) show ?thesis by simp
    qed
    from round.IH[OF False this remaining_closed[OF round.prems(2)]
        remaining_distinct[OF round.prems(3)]]
    obtain rem where rem: "e = AssertionError rem" "stuck_remainder (remaining data) rem"
      by blast
    from stuck_remainder_round[OF round.prems(3) rem(2)] rem(1) show ?thesis by blast
  qed
qed

subsection \<open>Dicts keep their keys unique\<close>

lemma dict_set_fresh: "k \<notin> fst ` set d \<Longrightarrow> dict_set k v d = d @ [(k, v)]"
  by (induction d) auto

lemma dict_update_fresh:
  "distinct (map fst d @ map fst e) \<Longrightarrow> dict_update d e = d @ e"
proof (induction e arbitrary: d)
  case Nil
  show ?case by (simp add: dict_update_def)
next
  case (Cons a e)
  obtain k v where a: "a = (k, v)" by (cases a)
  from Cons.prems have fresh: "k \<notin> fst ` set d" by (auto simp: a)
  from Cons.prems have "distinct (map fst (d @ [(k, v)]) @ map fst e)" by (auto simp: a)
  from Cons.IH[OF this] show ?case
    by (simp add: dict_update_def a dict_set_fresh[OF fresh])
qed

lemma dict_set_keys:
  "map fst (dict_set k v d) = (if k \<in> set (map fst d) then map fst d else map fst d @ [k])"
proof (induction d)
  case Nil
  show ?case by simp
next
  case (Cons a d)
  obtain k' v' where a: "a = (k', v')" by (cases a)
  show ?case by (cases "k' = k") (simp_all add: a Cons.IH)
qed

lemma dict_set_distinct: "distinct (map fst d) \<Longrightarrow> distinct (map fst (dict_set k v d))"
  by (simp add: dict_set_keys)

lemma dict_set_key_set: "set (map fst (dict_set k v d)) = insert k (set (map fst d))"
  by (auto simp: dict_set_keys)

lemma dict_update_distinct: "distinct (map fst d) \<Longrightarrow> distinct (map fst (dict_update d e))"
  unfolding dict_update_def
proof (induction e arbitrary: d)
  case Nil
  then show ?case by simp
next
  case (Cons a e)
  from Cons.prems have "distinct (map fst (dict_set (fst a) (snd a) d))"
    by (rule dict_set_distinct)
  from Cons.IH[OF this] show ?case by (simp add: case_prod_beta)
qed

lemma flatten_specs_distinct: "distinct (map fst (flatten_specs import_specs))"
proof -
  have "distinct (map fst acc) \<Longrightarrow>
      distinct (map fst (fold (\<lambda>(t, table_spec) flat_specs.
        dict_update flat_specs (fold (\<lambda>(i, s) specs. dict_set (t, i) s specs) table_spec []))
        import_specs acc))" for acc
  proof (induction import_specs arbitrary: acc)
    case Nil
    then show ?case by simp
  next
    case (Cons a import_specs)
    obtain t table_spec where a: "a = (t, table_spec)" by (cases a)
    have "distinct (map fst (dict_update acc
        (fold (\<lambda>(i, s) specs. dict_set (t, i) s specs) table_spec [])))"
      using Cons.prems by (rule dict_update_distinct)
    from Cons.IH[OF this] show ?case by (simp add: a)
  qed
  from this[of "[]"] show ?thesis by (simp add: flatten_specs_def)
qed

lemma fold_dict_set_map:
  "fold (\<lambda>(p, s) dm. dict_set p (g s) dm) xs acc =
   fold (\<lambda>(k, v) acc. dict_set k v acc) (map (\<lambda>(p, s). (p, g s)) xs) acc"
proof (induction xs arbitrary: acc)
  case Nil
  show ?case by simp
next
  case (Cons a xs)
  obtain p s where a: "a = (p, s)" by (cases a)
  show ?case by (simp add: a Cons.IH)
qed

lemma map_fst_map_snd: "map fst (map (\<lambda>(p, s). (p, g s)) xs) = map fst xs"
  by (induction xs) auto

lemma dependency_map_of_eq:
  assumes "distinct (map fst flat_specs)"
  shows "dependency_map_of flat_specs = map (\<lambda>(p, s). (p, xref_deps s)) flat_specs"
proof -
  have "dependency_map_of flat_specs =
      dict_update [] (map (\<lambda>(p, s). (p, xref_deps s)) flat_specs)"
    unfolding dependency_map_of_def dict_update_def by (rule fold_dict_set_map)
  also have "\<dots> = [] @ map (\<lambda>(p, s). (p, xref_deps s)) flat_specs"
    using assms by (intro dict_update_fresh) (simp add: map_fst_map_snd del: map_map)
  finally show ?thesis by simp
qed

subsection \<open>What the loop starts from\<close>

lemma without_self_keys: "map fst (without_self data) = map fst data"
  unfolding without_self_def by (induction data) auto

lemma without_self_entry:
  "(k, dep') \<in> set (without_self data) \<longleftrightarrow> (\<exists>dep. (k, dep) \<in> set data \<and> dep' = dep - {k})"
  unfolding without_self_def by (induction data) auto

lemma without_self_dep_rel: "dep_rel (without_self data) = dep_rel data - Id"
proof (rule set_eqI)
  fix x :: "'a \<times> 'a"
  obtain k d where x: "x = (k, d)" by (cases x)
  have "(k, d) \<in> dep_rel (without_self data) \<longleftrightarrow> (k, d) \<in> dep_rel data \<and> k \<noteq> d"
  proof
    assume "(k, d) \<in> dep_rel (without_self data)"
    then obtain dep' where "(k, dep') \<in> set (without_self data)" "d \<in> dep'"
      unfolding dep_rel_iff by blast
    then obtain dep where "(k, dep) \<in> set data" "d \<in> dep - {k}"
      unfolding without_self_entry by blast
    then show "(k, d) \<in> dep_rel data \<and> k \<noteq> d"
      unfolding dep_rel_iff by blast
  next
    assume a: "(k, d) \<in> dep_rel data \<and> k \<noteq> d"
    then obtain dep where dep: "(k, dep) \<in> set data" "d \<in> dep"
      unfolding dep_rel_iff by blast
    then have "(k, dep - {k}) \<in> set (without_self data)"
      unfolding without_self_entry by blast
    moreover from dep a have "d \<in> dep - {k}" by blast
    ultimately show "(k, d) \<in> dep_rel (without_self data)"
      unfolding dep_rel_iff by blast
  qed
  then show "x \<in> dep_rel (without_self data) \<longleftrightarrow> x \<in> dep_rel data - Id"
    by (simp add: x)
qed

lemma deps_union: "\<Union> (set (map snd data)) = snd ` dep_rel data"
proof (rule set_eqI)
  fix d
  have "d \<in> snd ` dep_rel data \<longleftrightarrow> (\<exists>k. (k, d) \<in> dep_rel data)" by force
  also have "\<dots> \<longleftrightarrow> (\<exists>k dep. (k, dep) \<in> set data \<and> d \<in> dep)" unfolding dep_rel_iff ..
  also have "\<dots> \<longleftrightarrow> d \<in> \<Union> (set (map snd data))" by force
  finally show "d \<in> \<Union> (set (map snd data)) \<longleftrightarrow> d \<in> snd ` dep_rel data" ..
qed

lemma empty_entries_dep_rel: "dep_rel (map (\<lambda>item. (item, {})) xs) = {}"
  by (auto simp: dep_rel_def)

lemma dep_rel_append: "dep_rel (xs @ ys) = dep_rel xs \<union> dep_rel ys"
  by (auto simp: dep_rel_def)

lemma toposort_unfold:
  "toposort iter data =
     (if data = [] then Inl TypeError
      else toposort_loop (dict_update (without_self data)
             (map (\<lambda>item. (item, {}))
                (iter (\<Union> (set (map snd (without_self data))) - set (map fst (without_self data)))))))"
  by (simp add: toposort_def without_self_def Let_def)

lemma toposort_prepared:
  assumes ne: "data \<noteq> []" and d: "distinct (map fst data)"
    and fin: "\<forall>(k, dep) \<in> set data. finite dep" and it: "iteration_order iter"
  shows "\<exists>data2. toposort iter data = toposort_loop data2 \<and> distinct (map fst data2) \<and> closed data2
       \<and> dep_rel data2 = dep_rel data - Id
       \<and> fst ` set data2 = fst ` set data \<union> snd ` (dep_rel data - Id)"
proof -
  define data1 where "data1 = without_self data"
  define extra where "extra = \<Union> (set (map snd data1)) - set (map fst data1)"
  define data2 where "data2 = data1 @ map (\<lambda>item. (item, {})) (iter extra)"
  have keys1: "map fst data1 = map fst data"
    unfolding data1_def by (rule without_self_keys)
  have rel1: "dep_rel data1 = dep_rel data - Id"
    unfolding data1_def by (rule without_self_dep_rel)
  have ex: "extra = snd ` (dep_rel data - Id) - set (map fst data)"
    unfolding extra_def deps_union rel1 keys1 ..
  have "finite (dep_rel data)"
    unfolding dep_rel_def using fin by (intro finite_UN_I) auto
  then have "finite extra" unfolding ex by simp
  with it have order: "set (iter extra) = extra" "distinct (iter extra)"
    unfolding iteration_order_def by blast+
  have m: "map fst (map (\<lambda>item. (item, {})) xs) = xs" for xs :: "path list"
    by (induction xs) simp_all
  have keys2: "map fst data2 = map fst data @ iter extra"
    unfolding data2_def by (simp only: map_append keys1 m)
  have "extra \<inter> set (map fst data) = {}" by (subst ex) blast
  then have "set (map fst data) \<inter> set (iter extra) = {}"
    unfolding order(1) by blast
  with d order(2) have dist0: "distinct (map fst data @ iter extra)"
    by (simp only: distinct_append simp_thms)
  then have dist: "distinct (map fst data2)" unfolding keys2 .
  from dist0 have "distinct (map fst data1 @ map fst (map (\<lambda>item. (item, {})) (iter extra)))"
    unfolding keys1 m .
  from dict_update_fresh[OF this]
  have upd: "dict_update data1 (map (\<lambda>item. (item, {})) (iter extra)) = data2"
    unfolding data2_def .
  have "toposort iter data =
      toposort_loop (dict_update data1 (map (\<lambda>item. (item, {})) (iter extra)))"
    unfolding data1_def extra_def by (subst toposort_unfold) (simp only: ne if_False)
  then have run: "toposort iter data = toposort_loop data2" unfolding upd .
  have rel: "dep_rel data2 = dep_rel data - Id"
    unfolding data2_def by (simp only: dep_rel_append empty_entries_dep_rel rel1 Un_empty_right)
  have keyset: "fst ` set data2 = fst ` set data \<union> snd ` (dep_rel data - Id)"
  proof -
    have "fst ` set data2 = set (map fst data2)" by (simp only: set_map)
    also have "\<dots> = set (map fst data) \<union> extra" unfolding keys2 by (simp only: set_append order)
    also have "\<dots> = set (map fst data) \<union> snd ` (dep_rel data - Id)" unfolding ex by blast
    finally show ?thesis by (simp only: set_map)
  qed
  have cl: "closed data2"
    unfolding closed_def
  proof (rule ballI, rule prod.case_eq_if[THEN iffD2])
    fix x assume x: "x \<in> set data2"
    have "snd x \<subseteq> snd ` dep_rel data2"
    proof
      fix d assume "d \<in> snd x"
      with x have "(fst x, d) \<in> dep_rel data2"
        unfolding dep_rel_iff by (intro exI[of _ "snd x"]) simp
      then show "d \<in> snd ` dep_rel data2" by (rule image_eqI[rotated]) simp
    qed
    then show "snd x \<subseteq> fst ` set data2"
      unfolding rel keyset by blast
  qed
  show ?thesis by (intro exI[of _ data2] conjI run dist cl rel keyset)
qed

subsection \<open>Looking the sorted keys up\<close>

lemma dict_get_None: "dict_get d k = None \<longleftrightarrow> k \<notin> fst ` set d"
  unfolding dict_get_def by (rule map_of_eq_None_iff)

lemma dict_get_Some: "dict_get d k = Some v \<Longrightarrow> (k, v) \<in> set d"
  unfolding dict_get_def by (rule map_of_SomeD)

lemma lookup_specs_found:
  assumes "set ks \<subseteq> fst ` set flat"
  shows "\<exists>specs. lookup_specs f flat ks = Inr specs \<and> map spec_key specs = ks
       \<and> (\<forall>x \<in> set specs. dict_get flat (spec_key x) = Some (snd (snd x)))"
  using assms
proof (induction ks)
  case Nil
  show ?case by simp
next
  case (Cons k ks)
  obtain t i where k: "k = (t, i)" by (cases k)
  from Cons.prems have "(t, i) \<in> fst ` set flat" by (simp add: k)
  then have "dict_get flat (t, i) \<noteq> None" by (simp only: dict_get_None simp_thms)
  then obtain s where s: "dict_get flat (t, i) = Some s" by blast
  from Cons.prems have "set ks \<subseteq> fst ` set flat" by simp
  from Cons.IH[OF this] obtain specs where specs: "lookup_specs f flat ks = Inr specs"
    "map spec_key specs = ks" "\<forall>x \<in> set specs. dict_get flat (spec_key x) = Some (snd (snd x))"
    by blast
  have a1: "lookup_specs f flat (k # ks) = Inr ((t, i, s) # specs)"
    by (simp add: k s specs(1))
  have a2: "map spec_key ((t, i, s) # specs) = k # ks"
    by (simp add: k specs(2) spec_key_def)
  have a3: "\<forall>x \<in> set ((t, i, s) # specs). dict_get flat (spec_key x) = Some (snd (snd x))"
    using specs(3) s by (simp add: spec_key_def)
  show ?case by (intro exI[of _ "(t, i, s) # specs"] conjI a1 a2 a3)
qed

lemma lookup_specs_missing:
  assumes "\<not> set ks \<subseteq> fst ` set flat"
  shows "\<exists>t i. (t, i) \<in> set ks \<and> (t, i) \<notin> fst ` set flat
       \<and> lookup_specs f flat ks = Inl (missing_spec f t i)"
  using assms
proof (induction ks)
  case Nil
  then show ?case by simp
next
  case (Cons k ks)
  obtain t i where k: "k = (t, i)" by (cases k)
  show ?case
  proof (cases "dict_get flat (t, i)")
    case None
    then have "(t, i) \<notin> fst ` set flat"
      using dict_get_None[of flat "(t, i)"] by simp
    moreover have "lookup_specs f flat (k # ks) = Inl (missing_spec f t i)"
      by (simp add: k None)
    moreover have "(t, i) \<in> set (k # ks)" by (simp add: k)
    ultimately show ?thesis by blast
  next
    case (Some s)
    then have "(t, i) \<in> fst ` set flat"
      using dict_get_None[of flat "(t, i)"] by simp
    with Cons.prems have "\<not> set ks \<subseteq> fst ` set flat" by (simp add: k)
    from Cons.IH[OF this] obtain t' i' where m: "(t', i') \<in> set ks" "(t', i') \<notin> fst ` set flat"
      "lookup_specs f flat ks = Inl (missing_spec f t' i')" by blast
    have "lookup_specs f flat (k # ks) = Inl (missing_spec f t' i')"
      by (simp add: k Some m(3))
    moreover from m(1) have "(t', i') \<in> set (k # ks)" by simp
    ultimately show ?thesis using m(2) by blast
  qed
qed

subsection \<open>The dependency map of a specification set\<close>

lemma dependency_map_entry:
  "(p, dep) \<in> set (map (\<lambda>(p, s). (p, xref_deps s)) flat) \<longleftrightarrow>
   (\<exists>s. (p, s) \<in> set flat \<and> dep = xref_deps s)"
  by (induction flat) auto

lemma UN_pair_iff:
  "(k, d) \<in> (\<Union>(p, s) \<in> A. Pair p ` (g s - {p})) \<longleftrightarrow> (\<exists>s. (k, s) \<in> A \<and> d \<in> g s \<and> d \<noteq> k)"
  by auto

lemma xref_graph_iff:
  "(k, d) \<in> xref_graph import_specs \<longleftrightarrow>
   (\<exists>s. (k, s) \<in> set (flatten_specs import_specs) \<and> d \<in> xref_deps s \<and> d \<noteq> k)"
  unfolding xref_graph_def by (rule UN_pair_iff)

lemma dependency_map_graph:
  "dep_rel (dependency_map_of (flatten_specs import_specs)) - Id = xref_graph import_specs"
proof (rule set_eqI)
  fix x :: "path \<times> path"
  obtain k d where x: "x = (k, d)" by (cases x)
  let ?flat = "flatten_specs import_specs"
  have dm: "dependency_map_of ?flat = map (\<lambda>(p, s). (p, xref_deps s)) ?flat"
    by (rule dependency_map_of_eq[OF flatten_specs_distinct])
  have "(k, d) \<in> dep_rel (dependency_map_of ?flat) \<and> k \<noteq> d \<longleftrightarrow>
      (\<exists>s. (k, s) \<in> set ?flat \<and> d \<in> xref_deps s \<and> d \<noteq> k)"
    unfolding dm dep_rel_iff dependency_map_entry by blast
  also have "\<dots> \<longleftrightarrow> (k, d) \<in> xref_graph import_specs"
    unfolding xref_graph_iff ..
  finally show "x \<in> dep_rel (dependency_map_of ?flat) - Id \<longleftrightarrow> x \<in> xref_graph import_specs"
    by (simp add: x)
qed

lemma dependency_map_keys:
  "fst ` set (dependency_map_of (flatten_specs import_specs)) = fst ` set (flatten_specs import_specs)"
proof -
  let ?flat = "flatten_specs import_specs"
  have "map fst (dependency_map_of ?flat) = map fst ?flat"
    unfolding dependency_map_of_eq[OF flatten_specs_distinct] by (rule map_fst_map_snd)
  then have "set (map fst (dependency_map_of ?flat)) = set (map fst ?flat)" by simp
  then show ?thesis by (simp only: set_map)
qed

lemma dependency_map_prepared:
  assumes ne: "flatten_specs import_specs \<noteq> []" and it: "iteration_order iter"
  shows "\<exists>data2. toposort iter (dependency_map_of (flatten_specs import_specs)) = toposort_loop data2
       \<and> distinct (map fst data2) \<and> closed data2
       \<and> dep_rel data2 = xref_graph import_specs
       \<and> fst ` set data2 = fst ` set (flatten_specs import_specs) \<union> snd ` xref_graph import_specs"
proof -
  let ?flat = "flatten_specs import_specs"
  let ?dm = "dependency_map_of ?flat"
  have dm: "?dm = map (\<lambda>(p, s). (p, xref_deps s)) ?flat"
    by (rule dependency_map_of_eq[OF flatten_specs_distinct])
  from ne have ne': "?dm \<noteq> []" unfolding dm by simp
  have "map fst ?dm = map fst ?flat" unfolding dm by (rule map_fst_map_snd)
  with flatten_specs_distinct[of import_specs] have d: "distinct (map fst ?dm)" by simp
  have fin: "\<forall>(k, dep) \<in> set ?dm. finite dep"
  proof (rule ballI, rule prod.case_eq_if[THEN iffD2])
    fix x assume "x \<in> set ?dm"
    then have "(fst x, snd x) \<in> set (map (\<lambda>(p, s). (p, xref_deps s)) ?flat)"
      unfolding dm by simp
    then obtain s where "snd x = xref_deps s" unfolding dependency_map_entry by blast
    then show "finite (snd x)" by (simp add: xref_deps_def)
  qed
  from toposort_prepared[OF ne' d fin it] show ?thesis
    unfolding dependency_map_graph dependency_map_keys .
qed

lemma CsvImporter_init_unfold:
  "CsvImporter_init iter f import_specs =
     (case toposort iter (dependency_map_of (flatten_specs import_specs)) of
        Inl e \<Rightarrow> Inl e
      | Inr layers \<Rightarrow> lookup_specs f (flatten_specs import_specs) (concat (map iter layers)))"
  by (simp add: CsvImporter_init_def Let_def)

lemma empty_specification_set: "CsvImporter_init iter f [] = Inl TypeError"
  by (simp add: CsvImporter_init_unfold flatten_specs_def dependency_map_of_def toposort_def)

subsection \<open>The order computed at construction\<close>

lemma flat_spec_entry:
  "dict_get (flatten_specs import_specs) k = Some s \<longleftrightarrow> (k, s) \<in> set (flatten_specs import_specs)"
  unfolding dict_get_def using flatten_specs_distinct[of import_specs] by simp

text \<open>
  C1, as the code has it. For a specification set that is not empty, whose
  XReferences all point to declared (table, instance) keys and whose XReference graph
  (self references removed) is acyclic, the construction of the importer returns the
  ordered spec list: every declared key occurs in it exactly once, with its own spec,
  and for every XReference from a spec A to another spec B, B stands before A.
\<close>
theorem topological_order:
  assumes it: "iteration_order iter"
    and ne: "flatten_specs import_specs \<noteq> []"
    and decl: "\<forall>(p, s) \<in> set (flatten_specs import_specs).
        xref_deps s \<subseteq> fst ` set (flatten_specs import_specs)"
    and acyc: "acyclic (xref_graph import_specs)"
  shows "\<exists>specs. CsvImporter_init iter f import_specs = Inr specs
       \<and> distinct (map spec_key specs)
       \<and> set (map spec_key specs) = fst ` set (flatten_specs import_specs)
       \<and> (\<forall>x \<in> set specs. (spec_key x, snd (snd x)) \<in> set (flatten_specs import_specs))
       \<and> (\<forall>x \<in> set specs. \<forall>b \<in> xref_deps (snd (snd x)).
             b \<noteq> spec_key x \<longrightarrow> precedes b (spec_key x) (map spec_key specs))"
proof -
  let ?flat = "flatten_specs import_specs"
  from dependency_map_prepared[OF ne it] obtain data2 where
    run: "toposort iter (dependency_map_of ?flat) = toposort_loop data2"
    and d: "distinct (map fst data2)" and cl: "closed data2"
    and rel: "dep_rel data2 = xref_graph import_specs"
    and keys: "fst ` set data2 = fst ` set ?flat \<union> snd ` xref_graph import_specs"
    by blast
  have "snd ` xref_graph import_specs \<subseteq> fst ` set ?flat"
  proof
    fix b assume "b \<in> snd ` xref_graph import_specs"
    then obtain k where "(k, b) \<in> xref_graph import_specs" by force
    then obtain s where "(k, s) \<in> set ?flat" "b \<in> xref_deps s"
      unfolding xref_graph_iff by blast
    with decl show "b \<in> fst ` set ?flat" by blast
  qed
  with keys have keys': "fst ` set data2 = fst ` set ?flat" by blast
  from acyc have "acyclic (dep_rel data2)" unfolding rel .
  from toposort_loop_complete[OF this cl] obtain layers where
    layers: "toposort_loop data2 = Inr layers" by blast
  let ?ks = "concat (map iter layers)"
  from toposort_loop_sound[OF layers d it] have dist: "distinct ?ks"
    and set: "set ?ks = fst ` set ?flat"
    and prec: "\<forall>(k, b) \<in> xref_graph import_specs. precedes b k ?ks"
    unfolding rel keys' by blast+
  from set have "set ?ks \<subseteq> fst ` set ?flat" by simp
  from lookup_specs_found[OF this, of f] obtain specs where
    specs: "lookup_specs f ?flat ?ks = Inr specs" "map spec_key specs = ?ks"
      "\<forall>x \<in> set specs. dict_get ?flat (spec_key x) = Some (snd (snd x))"
    by blast
  have c1: "CsvImporter_init iter f import_specs = Inr specs"
    unfolding CsvImporter_init_unfold run layers using specs(1) by simp
  have c2: "distinct (map spec_key specs)" unfolding specs(2) by (rule dist)
  have c3: "set (map spec_key specs) = fst ` set ?flat" unfolding specs(2) by (rule set)
  have c4: "\<forall>x \<in> set specs. (spec_key x, snd (snd x)) \<in> set ?flat"
    using specs(3) unfolding flat_spec_entry .
  have c5: "\<forall>x \<in> set specs. \<forall>b \<in> xref_deps (snd (snd x)).
      b \<noteq> spec_key x \<longrightarrow> precedes b (spec_key x) (map spec_key specs)"
  proof (intro ballI impI)
    fix x b assume x: "x \<in> set specs" and b: "b \<in> xref_deps (snd (snd x))" "b \<noteq> spec_key x"
    from c4 x have "(spec_key x, snd (snd x)) \<in> set ?flat" by blast
    with b have "(spec_key x, b) \<in> xref_graph import_specs"
      unfolding xref_graph_iff by blast
    with prec show "precedes b (spec_key x) (map spec_key specs)"
      unfolding specs(2) by blast
  qed
  show ?thesis by (intro exI[of _ specs] conjI c1 c2 c3 c4 c5)
qed

subsection \<open>Cycles\<close>

lemma cyclic_construction_fails:
  assumes it: "iteration_order iter"
    and cyc: "\<not> acyclic (xref_graph import_specs)"
  shows "\<exists>rem. CsvImporter_init iter f import_specs = Inl (AssertionError rem)
       \<and> rem \<noteq> []
       \<and> (\<forall>(k, dep) \<in> set rem. dep \<noteq> {} \<and> dep \<subseteq> fst ` set rem)
       \<and> dep_rel rem \<subseteq> xref_graph import_specs
       \<and> (\<forall>k. (k, k) \<in> (xref_graph import_specs)\<^sup>+ \<longrightarrow> k \<in> fst ` set rem)"
proof -
  let ?flat = "flatten_specs import_specs"
  have ne: "?flat \<noteq> []"
  proof
    assume "?flat = []"
    then have "xref_graph import_specs = {}" by (simp add: xref_graph_def)
    with cyc show False by (simp add: acyclic_def)
  qed
  from dependency_map_prepared[OF ne it] obtain data2 where
    run: "toposort iter (dependency_map_of ?flat) = toposort_loop data2"
    and d: "distinct (map fst data2)" and cl: "closed data2"
    and rel: "dep_rel data2 = xref_graph import_specs"
    by blast
  obtain e where e: "toposort_loop data2 = Inl e"
  proof (cases "toposort_loop data2")
    case (Inl e)
    then show ?thesis by (rule that)
  next
    case (Inr layers)
    from toposort_loop_acyclic[OF Inr d] cyc show ?thesis unfolding rel by simp
  qed
  from toposort_loop_failure[OF e cl d] obtain rem where
    rem: "e = AssertionError rem" "stuck_remainder data2 rem" by blast
  have c1: "CsvImporter_init iter f import_specs = Inl (AssertionError rem)"
    unfolding CsvImporter_init_unfold run e rem(1) by simp
  from rem(2) have c2: "rem \<noteq> []"
    and c3: "\<forall>(k, dep) \<in> set rem. dep \<noteq> {} \<and> dep \<subseteq> fst ` set rem"
    and c4: "dep_rel rem \<subseteq> xref_graph import_specs"
    and c5: "\<forall>k. (k, k) \<in> (xref_graph import_specs)\<^sup>+ \<longrightarrow> k \<in> fst ` set rem"
    unfolding stuck_remainder_def rel by blast+
  show ?thesis by (intro exI[of _ rem] conjI c1 c2 c3 c4 c5)
qed

text \<open>
  C2. For a specification set whose XReference graph (self references removed) has a
  cycle, the construction of the importer fails with the assertion of \<^verbatim>\<open>_toposort\<close>,
  before there is an importer to process a row with. The assertion reports what was
  left of the dependency map: it is not empty, every key in it still depends on keys
  in it, along edges of the XReference graph, and every key on a cycle is in it.
\<close>
theorem cyclic_dependencies_rejected:
  assumes "iteration_order iter"
    and "\<not> acyclic (xref_graph import_specs)"
  shows "\<exists>rem. CsvImporter_init iter f import_specs = Inl (AssertionError rem)
       \<and> rem \<noteq> []
       \<and> (\<forall>(k, dep) \<in> set rem. dep \<noteq> {} \<and> dep \<subseteq> fst ` set rem)
       \<and> dep_rel rem \<subseteq> xref_graph import_specs
       \<and> (\<forall>k. (k, k) \<in> (xref_graph import_specs)\<^sup>+ \<longrightarrow> k \<in> fst ` set rem)"
  using assms by (rule cyclic_construction_fails)

subsection \<open>References to specs that are not declared\<close>

lemma missing_specification_acyclic:
  assumes it: "iteration_order iter"
    and acyc: "acyclic (xref_graph import_specs)"
    and spec: "(p, s) \<in> set (flatten_specs import_specs)"
    and dangling: "\<not> xref_deps s \<subseteq> fst ` set (flatten_specs import_specs)"
  shows "\<exists>t i. (t, i) \<notin> fst ` set (flatten_specs import_specs)
       \<and> (\<exists>(p', s') \<in> set (flatten_specs import_specs). (t, i) \<in> xref_deps s')
       \<and> CsvImporter_init iter f import_specs = Inl (missing_spec f t i)"
proof -
  let ?flat = "flatten_specs import_specs"
  from spec have ne: "?flat \<noteq> []" by auto
  from dependency_map_prepared[OF ne it] obtain data2 where
    run: "toposort iter (dependency_map_of ?flat) = toposort_loop data2"
    and d: "distinct (map fst data2)" and cl: "closed data2"
    and rel: "dep_rel data2 = xref_graph import_specs"
    and keys: "fst ` set data2 = fst ` set ?flat \<union> snd ` xref_graph import_specs"
    by blast
  from acyc have "acyclic (dep_rel data2)" unfolding rel .
  from toposort_loop_complete[OF this cl] obtain layers where
    layers: "toposort_loop data2 = Inr layers" by blast
  let ?ks = "concat (map iter layers)"
  from toposort_loop_sound[OF layers d it]
  have set: "set ?ks = fst ` set ?flat \<union> snd ` xref_graph import_specs"
    unfolding keys by blast
  from dangling obtain b where b: "b \<in> xref_deps s" "b \<notin> fst ` set ?flat" by blast
  from spec have "p \<in> fst ` set ?flat" by (rule image_eqI[rotated]) simp
  with b have "b \<noteq> p" by blast
  with spec b(1) have "(p, b) \<in> xref_graph import_specs"
    unfolding xref_graph_iff by blast
  then have "b \<in> snd ` xref_graph import_specs" by (rule image_eqI[rotated]) simp
  with set b(2) have "\<not> set ?ks \<subseteq> fst ` set ?flat" by blast
  from lookup_specs_missing[OF this, of f] obtain t i where
    m: "(t, i) \<in> set ?ks" "(t, i) \<notin> fst ` set ?flat"
      "lookup_specs f ?flat ?ks = Inl (missing_spec f t i)" by blast
  from m(1,2) set have "(t, i) \<in> snd ` xref_graph import_specs" by blast
  then obtain k where "(k, (t, i)) \<in> xref_graph import_specs" by force
  then obtain s' where s': "(k, s') \<in> set ?flat" "(t, i) \<in> xref_deps s'"
    unfolding xref_graph_iff by blast
  then have c2: "\<exists>(p', s') \<in> set ?flat. (t, i) \<in> xref_deps s'" by blast
  have c3: "CsvImporter_init iter f import_specs = Inl (missing_spec f t i)"
    unfolding CsvImporter_init_unfold run layers using m(3) by simp
  show ?thesis by (intro exI[of _ t] exI[of _ i] conjI m(2) c2 c3)
qed

text \<open>
  C6, as the code has it. When a spec has an XReference to a (table, instance) pair
  that is not declared, the construction of the importer fails. With an acyclic
  XReference graph the failure names a pair that is referred to and not declared:
  ETL.py raises the KeyError of that pair, Debugged.py prints its instance and its
  table (the table the XReference names) and exits. With a cyclic graph the failure
  is the assertion of \<^verbatim>\<open>_toposort\<close>.
\<close>
theorem missing_specification_reported:
  assumes it: "iteration_order iter"
    and spec: "(p, s) \<in> set (flatten_specs import_specs)"
    and dangling: "\<not> xref_deps s \<subseteq> fst ` set (flatten_specs import_specs)"
  shows "(acyclic (xref_graph import_specs) \<longrightarrow>
           (\<exists>t i. (t, i) \<notin> fst ` set (flatten_specs import_specs)
              \<and> (\<exists>(p', s') \<in> set (flatten_specs import_specs). (t, i) \<in> xref_deps s')
              \<and> CsvImporter_init iter f import_specs = Inl (missing_spec f t i)))
       \<and> (\<not> acyclic (xref_graph import_specs) \<longrightarrow>
           (\<exists>rem. CsvImporter_init iter f import_specs = Inl (AssertionError rem)))"
proof (intro conjI impI)
  assume "acyclic (xref_graph import_specs)"
  from missing_specification_acyclic[OF it this spec dangling]
  show "\<exists>t i. (t, i) \<notin> fst ` set (flatten_specs import_specs)
      \<and> (\<exists>(p', s') \<in> set (flatten_specs import_specs). (t, i) \<in> xref_deps s')
      \<and> CsvImporter_init iter f import_specs = Inl (missing_spec f t i)" .
next
  assume "\<not> acyclic (xref_graph import_specs)"
  from cyclic_construction_fails[OF it this, of f]
  show "\<exists>rem. CsvImporter_init iter f import_specs = Inl (AssertionError rem)" by blast
qed

subsection \<open>The specification sets of the scenarios\<close>
lemma sorted_iteration_order: "iteration_order sorted_list_of_set"
  by (simp add: iteration_order_def)

lemma scenario_flat:
  "flatten_specs scenario_specs = [((''Person'', ''p1''), person_spec), ((''Order'', ''o1''), order_spec)]"
  by (simp add: flatten_specs_def scenario_specs_def dict_update_def)

lemma person_deps: "xref_deps person_spec = {}"
  by (simp add: xref_deps_def person_spec_def RecordSpec_init_def List.map_filter_simps)

lemma order_deps: "xref_deps order_spec = {(''Person'', ''p1'')}"
  by (simp add: xref_deps_def order_spec_def RecordSpec_init_def List.map_filter_simps)

lemma scenario_graph: "xref_graph scenario_specs = {((''Order'', ''o1''), (''Person'', ''p1''))}"
  by (simp add: xref_graph_def scenario_flat person_deps order_deps)

lemma single_edge_acyclic: "a \<noteq> b \<Longrightarrow> acyclic {(a, b)}"
proof -
  assume "a \<noteq> b"
  have "acyclic ({} :: ('a \<times> 'a) set)" by (simp add: acyclic_def)
  with \<open>a \<noteq> b\<close> show ?thesis by (simp add: acyclic_insert)
qed

lemma map_sum_Inl: "map_sum id g x = Inl e \<Longrightarrow> x = Inl e"
  by (cases x) simp_all

lemma scenario_init_keys:
  "map_sum id (map spec_key) (CsvImporter_init sorted_list_of_set ETL scenario_specs) =
     Inr [(''Person'', ''p1''), (''Order'', ''o1'')]"
  by code_simp

lemma dangling_init_ETL:
  "CsvImporter_init sorted_list_of_set ETL dangling_specs = Inl (KeyErrorPath (''Person'', ''p1''))"
proof -
  have "map_sum id (map spec_key) (CsvImporter_init sorted_list_of_set ETL dangling_specs) =
      Inl (KeyErrorPath (''Person'', ''p1''))"
    by code_simp
  then show ?thesis by (rule map_sum_Inl)
qed

lemma dangling_init_Debugged:
  "CsvImporter_init sorted_list_of_set Debugged dangling_specs =
     Inl (SystemExit [SpecNotFound ''p1'' ''Person''])"
proof -
  have "map_sum id (map spec_key) (CsvImporter_init sorted_list_of_set Debugged dangling_specs) =
      Inl (SystemExit [SpecNotFound ''p1'' ''Person''])"
    by code_simp
  then show ?thesis by (rule map_sum_Inl)
qed

lemma cyclic_dangling_init:
  "CsvImporter_init sorted_list_of_set Debugged cyclic_dangling_specs =
     Inl (AssertionError [((''A'', ''a''), {(''B'', ''b'')}), ((''B'', ''b''), {(''A'', ''a'')})])"
proof -
  have "map_sum id (map spec_key) (CsvImporter_init sorted_list_of_set Debugged cyclic_dangling_specs) =
      Inl (AssertionError [((''A'', ''a''), {(''B'', ''b'')}), ((''B'', ''b''), {(''A'', ''a'')})])"
    by code_simp
  then show ?thesis by (rule map_sum_Inl)
qed

lemma dangling_flat: "flatten_specs dangling_specs = [((''Order'', ''o1''), order_spec)]"
  by (simp add: flatten_specs_def dangling_specs_def dict_update_def)

lemma dangling_graph: "xref_graph dangling_specs = {((''Order'', ''o1''), (''Person'', ''p1''))}"
  by (simp add: xref_graph_def dangling_flat order_deps)

lemma cyclic_not_acyclic: "\<not> acyclic (xref_graph cyclic_specs)"
proof -
  have flat: "flatten_specs cyclic_specs =
      [((''A'', ''a''), RecordSpec_init [(''x'', XReference ''B'' ''b'' ''y'')] None),
       ((''B'', ''b''), RecordSpec_init [(''y'', XReference ''A'' ''a'' ''x'')] None)]"
    by (simp add: flatten_specs_def cyclic_specs_def dict_update_def)
  have ab: "((''A'', ''a''), (''B'', ''b'')) \<in> xref_graph cyclic_specs"
    unfolding xref_graph_iff flat
    by (simp add: xref_deps_def RecordSpec_init_def List.map_filter_simps)
  have ba: "((''B'', ''b''), (''A'', ''a'')) \<in> xref_graph cyclic_specs"
    unfolding xref_graph_iff flat
    by (simp add: xref_deps_def RecordSpec_init_def List.map_filter_simps)
  from ab ba have "((''A'', ''a''), (''A'', ''a'')) \<in> (xref_graph cyclic_specs)\<^sup>+"
    by (rule trancl_into_trancl[OF r_into_trancl])
  then show ?thesis unfolding acyclic_def by blast
qed

text \<open>The Person and the Order of the scenario, iterated in sorted order.\<close>
theorem topological_order_witness:
  "iteration_order sorted_list_of_set
   \<and> flatten_specs scenario_specs \<noteq> []
   \<and> xref_deps person_spec \<subseteq> fst ` set (flatten_specs scenario_specs)
   \<and> xref_deps order_spec \<subseteq> fst ` set (flatten_specs scenario_specs)
   \<and> acyclic (xref_graph scenario_specs)
   \<and> (\<exists>specs. CsvImporter_init sorted_list_of_set ETL scenario_specs = Inr specs
         \<and> distinct (map spec_key specs)
         \<and> set (map spec_key specs) = fst ` set (flatten_specs scenario_specs)
         \<and> (\<forall>x \<in> set specs. (spec_key x, snd (snd x)) \<in> set (flatten_specs scenario_specs))
         \<and> (\<forall>x \<in> set specs. \<forall>b \<in> xref_deps (snd (snd x)).
               b \<noteq> spec_key x \<longrightarrow> precedes b (spec_key x) (map spec_key specs)))"
proof -
  have h2: "flatten_specs scenario_specs \<noteq> []" by (simp add: scenario_flat)
  have h3: "\<forall>(p, s) \<in> set (flatten_specs scenario_specs).
      xref_deps s \<subseteq> fst ` set (flatten_specs scenario_specs)"
    by (simp add: scenario_flat person_deps order_deps)
  have h4: "acyclic (xref_graph scenario_specs)"
    unfolding scenario_graph by (rule single_edge_acyclic) simp
  have p: "xref_deps person_spec \<subseteq> fst ` set (flatten_specs scenario_specs)"
    by (simp add: person_deps)
  have q: "xref_deps order_spec \<subseteq> fst ` set (flatten_specs scenario_specs)"
    by (simp add: scenario_flat order_deps)
  from topological_order[OF sorted_iteration_order h2 h3 h4, of ETL]
  show ?thesis by (intro conjI sorted_iteration_order h2 p q h4)
qed

text \<open>
  C1 as stated covers every specification set with an acyclic graph. The Order that
  refers to an undeclared Person has an acyclic graph, and the construction of the
  importer returns no spec list for it in either file.
\<close>
theorem dangling_reference_not_ordered:
  "iteration_order sorted_list_of_set
   \<and> acyclic (xref_graph dangling_specs)
   \<and> CsvImporter_init sorted_list_of_set ETL dangling_specs = Inl (KeyErrorPath (''Person'', ''p1''))
   \<and> CsvImporter_init sorted_list_of_set Debugged dangling_specs =
       Inl (SystemExit [SpecNotFound ''p1'' ''Person''])"
proof -
  have "acyclic (xref_graph dangling_specs)"
    unfolding dangling_graph by (rule single_edge_acyclic) simp
  then show ?thesis
    by (intro conjI sorted_iteration_order dangling_init_ETL dangling_init_Debugged)
qed

text \<open>Two specs that refer to each other.\<close>
theorem cyclic_dependencies_rejected_witness:
  "iteration_order sorted_list_of_set
   \<and> \<not> acyclic (xref_graph cyclic_specs)
   \<and> (\<exists>rem. CsvImporter_init sorted_list_of_set ETL cyclic_specs = Inl (AssertionError rem)
         \<and> rem \<noteq> []
         \<and> (\<forall>(k, dep) \<in> set rem. dep \<noteq> {} \<and> dep \<subseteq> fst ` set rem)
         \<and> dep_rel rem \<subseteq> xref_graph cyclic_specs
         \<and> (\<forall>k. (k, k) \<in> (xref_graph cyclic_specs)\<^sup>+ \<longrightarrow> k \<in> fst ` set rem))"
  using cyclic_dependencies_rejected[OF sorted_iteration_order cyclic_not_acyclic, of ETL]
  by (intro conjI sorted_iteration_order cyclic_not_acyclic)

text \<open>The Order that refers to an undeclared Person, in Debugged.py.\<close>
theorem missing_specification_reported_witness:
  "iteration_order sorted_list_of_set
   \<and> ((''Order'', ''o1''), order_spec) \<in> set (flatten_specs dangling_specs)
   \<and> \<not> xref_deps order_spec \<subseteq> fst ` set (flatten_specs dangling_specs)
   \<and> acyclic (xref_graph dangling_specs)
   \<and> (\<exists>t i. (t, i) \<notin> fst ` set (flatten_specs dangling_specs)
         \<and> (\<exists>(p', s') \<in> set (flatten_specs dangling_specs). (t, i) \<in> xref_deps s')
         \<and> CsvImporter_init sorted_list_of_set Debugged dangling_specs = Inl (missing_spec Debugged t i))"
proof -
  have h2: "((''Order'', ''o1''), order_spec) \<in> set (flatten_specs dangling_specs)"
    by (simp add: dangling_flat)
  have h3: "\<not> xref_deps order_spec \<subseteq> fst ` set (flatten_specs dangling_specs)"
    by (simp add: dangling_flat order_deps)
  have h4: "acyclic (xref_graph dangling_specs)"
    unfolding dangling_graph by (rule single_edge_acyclic) simp
  from missing_specification_reported[OF sorted_iteration_order h2 h3, of Debugged] h4
  have "\<exists>t i. (t, i) \<notin> fst ` set (flatten_specs dangling_specs)
         \<and> (\<exists>(p', s') \<in> set (flatten_specs dangling_specs). (t, i) \<in> xref_deps s')
         \<and> CsvImporter_init sorted_list_of_set Debugged dangling_specs = Inl (missing_spec Debugged t i)"
    by blast
  then show ?thesis by (intro conjI sorted_iteration_order h2 h3 h4)
qed

text \<open>
  C6 as stated asks for a message that names the missing instance and the referencing
  table. With a cycle next to the undeclared pair (M, m) the failure is the assertion,
  which names only the two specs of the cycle; and for the Order that refers to the
  undeclared Person, Debugged.py prints the instance \<open>p1\<close> and the table \<open>Person\<close>,
  not the table \<open>Order\<close> of the spec that refers to it.
\<close>
theorem cycle_hides_missing_specification:
  "(''M'', ''m'') \<notin> fst ` set (flatten_specs cyclic_dangling_specs)
   \<and> (\<exists>(p, s) \<in> set (flatten_specs cyclic_dangling_specs). (''M'', ''m'') \<in> xref_deps s)
   \<and> CsvImporter_init sorted_list_of_set Debugged cyclic_dangling_specs =
       Inl (AssertionError [((''A'', ''a''), {(''B'', ''b'')}), ((''B'', ''b''), {(''A'', ''a'')})])
   \<and> CsvImporter_init sorted_list_of_set Debugged dangling_specs =
       Inl (SystemExit [SpecNotFound ''p1'' ''Person''])
   \<and> ((''Order'', ''o1''), order_spec) \<in> set (flatten_specs dangling_specs)
   \<and> ''Order'' \<notin> set [''p1'', ''Person'']"
proof -
  have flat: "flatten_specs cyclic_dangling_specs =
      [((''A'', ''a''), RecordSpec_init [(''x'', XReference ''B'' ''b'' ''y''),
                                          (''z'', XReference ''M'' ''m'' ''y'')] None),
       ((''B'', ''b''), RecordSpec_init [(''y'', XReference ''A'' ''a'' ''x'')] None)]"
    by (simp add: flatten_specs_def cyclic_dangling_specs_def dict_update_def)
  have c1: "(''M'', ''m'') \<notin> fst ` set (flatten_specs cyclic_dangling_specs)"
    unfolding flat by simp
  have c2: "\<exists>(p, s) \<in> set (flatten_specs cyclic_dangling_specs). (''M'', ''m'') \<in> xref_deps s"
    unfolding flat by (simp add: xref_deps_def RecordSpec_init_def List.map_filter_simps)
  have c5: "((''Order'', ''o1''), order_spec) \<in> set (flatten_specs dangling_specs)"
    by (simp add: dangling_flat)
  have c6: "''Order'' \<notin> set [''p1'', ''Person'']" by simp
  show ?thesis
    by (intro conjI c1 c2 cyclic_dangling_init dangling_init_Debugged c5 c6)
qed

subsection \<open>The declared keys\<close>

lemma dict_update_key_set:
  "set (map fst (dict_update d e)) = set (map fst d) \<union> set (map fst e)"
  unfolding dict_update_def
proof (induction e arbitrary: d)
  case Nil
  show ?case by simp
next
  case (Cons a e)
  obtain k v where a: "a = (k, v)" by (cases a)
  have "set (map fst (fold (\<lambda>(k, v). dict_set k v) e (dict_set k v d))) =
      set (map fst (dict_set k v d)) \<union> set (map fst e)"
    by (rule Cons.IH)
  then show ?case unfolding dict_set_key_set by (simp add: a)
qed

lemma table_keys:
  "set (map fst (fold (\<lambda>(i, s) specs. dict_set (t, i) s specs) table_spec acc)) =
   set (map fst acc) \<union> Pair t ` fst ` set table_spec"
proof (induction table_spec arbitrary: acc)
  case Nil
  show ?case by simp
next
  case (Cons a table_spec)
  obtain i s where a: "a = (i, s)" by (cases a)
  have "set (map fst (fold (\<lambda>(i, s) specs. dict_set (t, i) s specs) table_spec (dict_set (t, i) s acc))) =
      set (map fst (dict_set (t, i) s acc)) \<union> Pair t ` fst ` set table_spec"
    by (rule Cons.IH)
  then show ?case unfolding dict_set_key_set by (simp add: a)
qed

lemma flatten_specs_keys:
  "fst ` set (flatten_specs import_specs) =
   (\<Union>(t, table_spec) \<in> set import_specs. Pair t ` fst ` set table_spec)"
proof -
  have "set (map fst (fold (\<lambda>(t, table_spec) flat_specs.
        dict_update flat_specs (fold (\<lambda>(i, s) specs. dict_set (t, i) s specs) table_spec []))
        import_specs acc)) =
      set (map fst acc) \<union> (\<Union>(t, table_spec) \<in> set import_specs. Pair t ` fst ` set table_spec)"
    for acc
  proof (induction import_specs arbitrary: acc)
    case Nil
    show ?case by simp
  next
    case (Cons a import_specs)
    obtain t table_spec where a: "a = (t, table_spec)" by (cases a)
    let ?acc = "dict_update acc (fold (\<lambda>(i, s) specs. dict_set (t, i) s specs) table_spec [])"
    have acc: "set (map fst ?acc) = set (map fst acc) \<union> Pair t ` fst ` set table_spec"
      unfolding dict_update_key_set table_keys by simp
    have "set (map fst (fold (\<lambda>(t, table_spec) flat_specs.
        dict_update flat_specs (fold (\<lambda>(i, s) specs. dict_set (t, i) s specs) table_spec []))
        import_specs ?acc)) =
      set (map fst ?acc) \<union> (\<Union>(t, table_spec) \<in> set import_specs. Pair t ` fst ` set table_spec)"
      by (rule Cons.IH)
    then show ?case unfolding acc by (simp add: a Un_assoc)
  qed
  from this[of "[]"] show ?thesis by (simp add: flatten_specs_def)
qed

end
